theory Spec2Isabelle
  imports Complex_Main "HOL-Library.Word"
begin

unbundle bit_operations_syntax

section \<open>The JACK output driver of Shairport Sync (audio_jack.c)\<close>

subsection \<open>Constants and sample types\<close>

text \<open>
  Two-channel, 16 bit audio: a frame is four bytes. The ring buffer is created for four
  seconds of audio at 44100 frames per second.
\<close>

type_synonym byte = "8 word"

definition bytes_per_frame :: nat where
  "bytes_per_frame = 4"

definition buffer_size :: nat where
  "buffer_size = 44100 * 4 * bytes_per_frame"

definition NPORTS :: nat where
  "NPORTS = 2"

text \<open>
  The limits of \<^verbatim>\<open>short\<close> from \<^verbatim>\<open>limits.h\<close>; a \<^verbatim>\<open>short\<close> is a 16 bit
  word read in two's complement (\<^const>\<open>sint\<close>).
\<close>

definition SHRT_MIN :: int where
  "SHRT_MIN = - 32768"

definition SHRT_MAX :: int where
  "SHRT_MAX = 32767"

subsection \<open>Floating point\<close>

text \<open>
  \<^verbatim>\<open>jack_default_audio_sample_t\<close> is \<^verbatim>\<open>float\<close>, the IEEE 754 format with 24
  significant bits; the expression of \<^verbatim>\<open>sample_conv\<close> is evaluated in \<^verbatim>\<open>double\<close>,
  with 53 significant bits, and converted to \<^verbatim>\<open>float\<close> on return. A floating point
  value is modelled by the real number it stands for. Every operation yields the exact
  result rounded to the precision of its format, to the nearest representable value,
  ties to the even significand.

  The nearest integer, ties to even:
\<close>

definition round_half_even :: "real \<Rightarrow> int" where
  "round_half_even q =
     (let n = \<lfloor>q\<rfloor>
      in if q - of_int n < 1 / 2 then n
         else if 1 / 2 < q - of_int n then n + 1
         else if even n then n else n + 1)"

text \<open>
  The binary exponent \<open>e\<close> of a number, \<open>2 powi e \<le> \<bar>x\<bar> < 2 powi (e + 1)\<close>, found by
  halving or doubling. The search covers \<open>2 powi (- 126) \<le> \<bar>x\<bar> < 2 powi 128\<close>, the range
  of the normal numbers of \<^verbatim>\<open>float\<close> (and well inside that of \<^verbatim>\<open>double\<close>); all
  values of \<^verbatim>\<open>sample_conv\<close> other than 0 lie in it, so that subnormal numbers,
  infinities and exponent overflow do not occur and are not modelled.
\<close>

fun exponent_up :: "nat \<Rightarrow> real \<Rightarrow> int" where
  "exponent_up 0 x = 0"
| "exponent_up (Suc n) x = (if x < 2 then 0 else exponent_up n (x / 2) + 1)"

fun exponent_down :: "nat \<Rightarrow> real \<Rightarrow> int" where
  "exponent_down 0 x = 0"
| "exponent_down (Suc n) x = (if 1 \<le> x then 0 else exponent_down n (2 * x) - 1)"

definition exponent :: "real \<Rightarrow> int" where
  "exponent x = (if 1 \<le> \<bar>x\<bar> then exponent_up 128 \<bar>x\<bar> else exponent_down 126 \<bar>x\<bar>)"

definition normal_range :: "real \<Rightarrow> bool" where
  "normal_range x \<longleftrightarrow> 2 powi (- 126) \<le> \<bar>x\<bar> \<and> \<bar>x\<bar> < 2 powi 128"

text \<open>
  Rounding to \<open>p\<close> significant bits: the number is scaled by its unit in the last place
  to a significand of \<open>p\<close> bits, rounded to an integer and scaled back.
\<close>

definition round_to :: "nat \<Rightarrow> real \<Rightarrow> real" where
  "round_to p x =
     (if x = 0 then 0
      else let ulp = 2 powi (exponent x - int p + 1)
           in of_int (round_half_even (x / ulp)) * ulp)"

definition to_double :: "real \<Rightarrow> real" where
  "to_double = round_to 53"

definition to_float :: "real \<Rightarrow> real" where
  "to_float = round_to 24"

subsection \<open>The sample converter\<close>

text \<open>
  \<^verbatim>\<open>sample_conv\<close>: the sample becomes a \<^verbatim>\<open>double\<close> (exactly, it has 16 bits), is
  multiplied by \<open>- 1.0\<close> or \<open>1.0\<close> and divided by \<^verbatim>\<open>SHRT_MIN\<close> or \<^verbatim>\<open>SHRT_MAX\<close>
  in \<^verbatim>\<open>double\<close>, and the quotient is converted to \<^verbatim>\<open>float\<close>.
\<close>

type_synonym jack_default_audio_sample_t = real

definition sample_conv :: "16 word \<Rightarrow> jack_default_audio_sample_t" where
  "sample_conv sample =
     to_float
       (if sint sample < 0
        then to_double (to_double (- 1.0 * real_of_int (sint sample)) / real_of_int SHRT_MIN)
        else to_double (to_double (1.0 * real_of_int (sint sample)) / real_of_int SHRT_MAX))"

subsection \<open>The transfer buffer\<close>

text \<open>
  Modelled from the spec: the ring buffer type and its operations
  (\<^verbatim>\<open>jack_ringbuffer_create\<close>, \<^verbatim>\<open>jack_ringbuffer_write\<close>,
  \<^verbatim>\<open>jack_ringbuffer_get_read_vector\<close>, \<^verbatim>\<open>jack_ringbuffer_read_advance\<close>,
  \<^verbatim>\<open>jack_ringbuffer_read_space\<close>) come from \<^verbatim>\<open>jack/ringbuffer.h\<close>, which is not
  part of the repository. The spec describes the buffer as a bounded byte queue of
  capacity C with monotonically advancing read and write cursors taken modulo C, a write
  that copies as many bytes as fit and returns their number, a read vector of at most
  two contiguous spans, and an advance of the read cursor.

  The storage is a map from byte offsets to bytes; a cursor addresses the offset
  \<open>cursor mod rb_size\<close>.
\<close>

record jack_ringbuffer_t =
  rb_buf :: "nat \<Rightarrow> byte"
  rb_write_ptr :: nat
  rb_read_ptr :: nat
  rb_size :: nat

text \<open>
  Modelled from the spec: \<^verbatim>\<open>jack_ringbuffer_create\<close> is missing; the spec has a
  buffer of capacity C bytes, fixed at construction and empty at first.
\<close>

definition jack_ringbuffer_create :: "nat \<Rightarrow> jack_ringbuffer_t" where
  "jack_ringbuffer_create sz =
     \<lparr>rb_buf = (\<lambda>_. 0), rb_write_ptr = 0, rb_read_ptr = 0, rb_size = sz\<rparr>"

text \<open>
  Modelled from the spec: \<^verbatim>\<open>jack_ringbuffer_read_space\<close> is missing; the spec's
  \<^verbatim>\<open>unread_byte_count\<close> is the current occupancy. The free space is what the capacity
  leaves.
\<close>

definition jack_ringbuffer_read_space :: "jack_ringbuffer_t \<Rightarrow> nat" where
  "jack_ringbuffer_read_space rb = rb_write_ptr rb - rb_read_ptr rb"

definition jack_ringbuffer_write_space :: "jack_ringbuffer_t \<Rightarrow> nat" where
  "jack_ringbuffer_write_space rb = rb_size rb - jack_ringbuffer_read_space rb"

text \<open>Copying \<open>n\<close> bytes of \<open>src\<close> to the offsets \<open>dst, dst + 1, ...\<close> of a storage.\<close>

definition memcpy :: "(nat \<Rightarrow> byte) \<Rightarrow> nat \<Rightarrow> byte list \<Rightarrow> nat \<Rightarrow> (nat \<Rightarrow> byte)" where
  "memcpy mem dst src n = (\<lambda>p. if dst \<le> p \<and> p < dst + n then src ! (p - dst) else mem p)"

text \<open>
  Modelled from the spec: \<^verbatim>\<open>jack_ringbuffer_write\<close> is missing; the spec's write
  copies as many bytes as fit, never overwrites unread data and returns the number of
  bytes written. It copies \<open>min cnt (free space)\<close> bytes: first up to the physical end of
  the storage, the rest from offset 0, and returns the buffer and the number of bytes
  copied.
\<close>

definition jack_ringbuffer_write ::
  "jack_ringbuffer_t \<Rightarrow> byte list \<Rightarrow> nat \<Rightarrow> jack_ringbuffer_t \<times> nat" where
  "jack_ringbuffer_write rb src cnt =
     (let to_write = min cnt (jack_ringbuffer_write_space rb);
          w = rb_write_ptr rb mod rb_size rb;
          n1 = min to_write (rb_size rb - w);
          n2 = to_write - n1;
          mem1 = memcpy (rb_buf rb) w src n1;
          mem2 = memcpy mem1 0 (drop n1 src) n2
      in (rb\<lparr>rb_buf := mem2, rb_write_ptr := rb_write_ptr rb + to_write\<rparr>, to_write))"

text \<open>
  Modelled from the spec: \<^verbatim>\<open>jack_ringbuffer_get_read_vector\<close> is missing; the spec
  exposes the unread data as at most two contiguous spans, without copying or removing
  it: the first from the read offset up to the physical end at most, the second from
  offset 0. A span is the list of its bytes; its \<^verbatim>\<open>len\<close> is the length of the list.
\<close>

definition jack_ringbuffer_get_read_vector :: "jack_ringbuffer_t \<Rightarrow> byte list list" where
  "jack_ringbuffer_get_read_vector rb =
     (let r = rb_read_ptr rb mod rb_size rb;
          cnt = jack_ringbuffer_read_space rb;
          n1 = min cnt (rb_size rb - r);
          n2 = cnt - n1
      in [map (\<lambda>i. rb_buf rb (r + i)) [0..<n1], map (rb_buf rb) [0..<n2]])"

text \<open>
  Modelled from the spec: \<^verbatim>\<open>jack_ringbuffer_read_advance\<close> is missing; the spec's
  \<^verbatim>\<open>advance_read\<close> commits the consumption of the first \<open>cnt\<close> unread bytes.
\<close>

definition jack_ringbuffer_read_advance :: "jack_ringbuffer_t \<Rightarrow> nat \<Rightarrow> jack_ringbuffer_t" where
  "jack_ringbuffer_read_advance rb cnt = rb\<lparr>rb_read_ptr := rb_read_ptr rb + cnt\<rparr>"

text \<open>
  The unread bytes in queue order, the invariant of the cursors, and frame alignment
  (every cursor and the capacity are whole numbers of frames).
\<close>

definition rb_content :: "jack_ringbuffer_t \<Rightarrow> byte list" where
  "rb_content rb =
     map (\<lambda>i. rb_buf rb ((rb_read_ptr rb + i) mod rb_size rb))
       [0..<jack_ringbuffer_read_space rb]"

definition rb_wf :: "jack_ringbuffer_t \<Rightarrow> bool" where
  "rb_wf rb \<longleftrightarrow> 0 < rb_size rb \<and> rb_read_ptr rb \<le> rb_write_ptr rb
     \<and> rb_write_ptr rb - rb_read_ptr rb \<le> rb_size rb"

definition rb_aligned :: "jack_ringbuffer_t \<Rightarrow> bool" where
  "rb_aligned rb \<longleftrightarrow> bytes_per_frame dvd rb_size rb \<and> bytes_per_frame dvd rb_read_ptr rb
     \<and> bytes_per_frame dvd rb_write_ptr rb"

subsection \<open>The state of the driver\<close>

text \<open>
  The file-scope variables of \<^verbatim>\<open>audio_jack.c\<close> that the operations read or write. The
  client handle is \<open>None\<close> while no session with the JACK server is open.
\<close>

record jack_state =
  jackbuf :: jack_ringbuffer_t
  flush_please :: int
  jack_latency :: "32 word"
  time_of_latest_transfer :: "64 word"
  client :: "nat option"

subsection \<open>Deinterleaving\<close>

text \<open>
  The interleaved bytes are read as an array of \<^verbatim>\<open>short\<close> in host byte order
  (little-endian): sample \<open>k\<close> is made of the bytes \<open>2 * k\<close> and \<open>2 * k + 1\<close>.
\<close>

definition short_at :: "byte list \<Rightarrow> nat \<Rightarrow> 16 word" where
  "short_at bs k = ucast (bs ! (2 * k)) OR push_bit 8 (ucast (bs ! (2 * k + 1)))"

type_synonym jack_buffers = "jack_default_audio_sample_t list list"

text \<open>
  The inner loop over the ports: \<^verbatim>\<open>jack_buffer[i][f] = sample_conv(*ifp++)\<close>. The read
  position \<open>ifp\<close> counts samples and is threaded through both loops.
\<close>

definition convert_frame :: "byte list \<Rightarrow> nat \<Rightarrow> nat \<times> jack_buffers \<Rightarrow> nat \<times> jack_buffers" where
  "convert_frame bs f =
     fold (\<lambda>i (ifp, jb). (ifp + 1, jb[i := (jb ! i)[f := sample_conv (short_at bs ifp)]]))
       [0..<NPORTS]"

definition deinterleave_and_convert ::
  "byte list \<Rightarrow> jack_buffers \<Rightarrow> nat \<Rightarrow> nat \<Rightarrow> jack_buffers" where
  "deinterleave_and_convert interleaved_frames jack_buffer offset nframes =
     snd (fold (convert_frame interleaved_frames) [offset..<nframes + offset] (0, jack_buffer))"

subsection \<open>The process callback\<close>

text \<open>One round of the loop over the two spans of the read vector.\<close>

definition span_step ::
  "byte list \<Rightarrow> jack_buffers \<times> nat \<times> nat \<Rightarrow> jack_buffers \<times> nat \<times> nat" where
  "span_step v = (\<lambda>(buffer, frames_written, nframes).
     let thisbuf = length v div bytes_per_frame;
         frames_required = (if thisbuf > nframes then nframes else thisbuf)
     in (deinterleave_and_convert v buffer frames_written frames_required,
         frames_written + frames_required, nframes - frames_required))"

text \<open>The closing loop: \<^verbatim>\<open>while (nframes > 0)\<close> writes one frame of silence per round.\<close>

primrec fill_silence :: "nat \<Rightarrow> nat \<Rightarrow> jack_buffers \<Rightarrow> jack_buffers" where
  "fill_silence 0 frames_written buffer = buffer"
| "fill_silence (Suc nframes) frames_written buffer =
     fill_silence nframes (frames_written + 1)
       (fold (\<lambda>i jb. jb[i := (jb ! i)[frames_written := 0]]) [0..<NPORTS] buffer)"

text \<open>
  Frame counts (\<^verbatim>\<open>jack_nframes_t\<close>, \<^verbatim>\<open>int\<close>) are natural numbers here: the
  capacity of the buffer keeps them far below \<open>2 ^ 31\<close>, and
  \<^verbatim>\<open>nframes -= frames_required\<close> never goes below 0 since
  \<open>frames_required \<le> nframes\<close>.

  \<^verbatim>\<open>process\<close> takes the frame count and the output buffers of the ports (what
  \<^verbatim>\<open>jack_port_get_buffer\<close> hands out: one array of \<open>nframes\<close> samples per port, with
  arbitrary content) and returns its result code, the buffers and the state.
\<close>

definition process :: "nat \<Rightarrow> jack_buffers \<Rightarrow> jack_state \<Rightarrow> int \<times> jack_buffers \<times> jack_state" where
  "process nframes buffer s =
     (if flush_please s \<noteq> 0 then
        let rb = jack_ringbuffer_read_advance (jackbuf s)
                   (jack_ringbuffer_read_space (jackbuf s))
        in (0, fill_silence nframes 0 buffer, s\<lparr>jackbuf := rb, flush_please := 0\<rparr>)
      else
        let v = jack_ringbuffer_get_read_vector (jackbuf s);
            (buffer1, frames_written, nframes1) = fold span_step v (buffer, 0, nframes);
            rb = jack_ringbuffer_read_advance (jackbuf s) (frames_written * bytes_per_frame)
        in (0, fill_silence nframes1 frames_written buffer1, s\<lparr>jackbuf := rb\<rparr>))"

subsection \<open>Flush, delay and play\<close>

definition jack_flush :: "jack_state \<Rightarrow> jack_state" where
  "jack_flush s = s\<lparr>flush_please := 1\<rparr>"

text \<open>
  \<^verbatim>\<open>jack_delay\<close> reads the clock (\<open>time_now\<close>, the value of
  \<^verbatim>\<open>get_absolute_time_in_fp\<close>, a 64 bit fixed-point number with 32 fractional bits)
  and returns its result code and the value stored through \<^verbatim>\<open>the_delay\<close>. The 64 bit
  arithmetic is that of the machine where \<^verbatim>\<open>long\<close> and \<^verbatim>\<open>size_t\<close> have 64 bits:
  sums, differences and products wrap around, the shift is arithmetic, and the
  \<^verbatim>\<open>long\<close> result is read through \<^const>\<open>sint\<close>.
\<close>

definition jack_delay :: "64 word \<Rightarrow> jack_state \<Rightarrow> int \<times> 64 word" where
  "jack_delay time_now s =
     (let delta = time_now - time_of_latest_transfer s;
          audio_occupancy_now =
            (of_nat (jack_ringbuffer_read_space (jackbuf s) div bytes_per_frame) :: 64 word);
          frames_processed_since_latest_latency_check = signed_drop_bit 32 (delta * 44100);
          the_delay = ucast (jack_latency s) + audio_occupancy_now
                        - frames_processed_since_latest_latency_check
      in (0, the_delay))"

text \<open>
  \<^const>\<open>jack_delay\<close> above is the function in a state that holds a ring buffer.
  \<^verbatim>\<open>jackbuf\<close> is a pointer: it is null until \<^verbatim>\<open>jack_init\<close> has created the ring
  buffer (lines 71 and 190), and \<^verbatim>\<open>jack_delay\<close> reads the occupancy through it (line
  302) without a test. A call is therefore made either before \<^verbatim>\<open>jack_init\<close>, with no
  state of the driver (\<open>None\<close>), where the null pointer is dereferenced and the function
  does not return, or in a state of the driver.
\<close>

datatype crash = Null_Pointer_Dereference

definition jack_delay_call :: "64 word \<Rightarrow> jack_state option \<Rightarrow> crash + int \<times> 64 word" where
  "jack_delay_call time_now driver =
     (case driver of
        None \<Rightarrow> Inl Null_Pointer_Dereference
      | Some s \<Rightarrow> Inr (jack_delay time_now s))"

text \<open>
  \<^verbatim>\<open>play\<close> takes the caller's bytes, the frame count and the clock value. The byte
  count \<^verbatim>\<open>samples * bytes_per_frame\<close> becomes a \<^verbatim>\<open>size_t\<close>, that is, it is taken
  modulo \<open>2 ^ 64\<close> (the product itself is taken not to overflow \<^verbatim>\<open>int\<close>). The
  caller's buffer is the list of its bytes; a write never reads more of it than it
  copies. The result is the return value, the overrun message if one is
  logged (bytes written and bytes requested), and the state.
\<close>

definition play ::
  "byte list \<Rightarrow> int \<Rightarrow> 64 word \<Rightarrow> jack_state \<Rightarrow> int \<times> (nat \<times> nat) option \<times> jack_state" where
  "play buf samples time_now s =
     (let bytes_to_transfer = nat ((samples * int bytes_per_frame) mod 2 ^ 64);
          (rb, bytes_transferred) = jack_ringbuffer_write (jackbuf s) buf bytes_to_transfer;
          s' = s\<lparr>jackbuf := rb, time_of_latest_transfer := time_now\<rparr>
      in (0,
          if bytes_transferred < bytes_to_transfer
          then Some (bytes_transferred, bytes_to_transfer) else None,
          s'))"

subsection \<open>Initialisation\<close>

text \<open>
  \<^verbatim>\<open>jack_init\<close>, reduced to what decides the state: whether the ring buffer could be
  allocated, the handle returned by \<^verbatim>\<open>jack_client_open\<close>, the sample rate of the
  server and the result of \<^verbatim>\<open>jack_activate\<close>. Every failure ends the program
  (\<^verbatim>\<open>die\<close>).
\<close>

datatype init_error = Die string

text \<open>
  The state once \<^verbatim>\<open>jack_init\<close> has created the ring buffer: the statics hold their
  initial values, the client handle is what \<^verbatim>\<open>jack_client_open\<close> returned.
\<close>

definition initial_state :: "nat option \<Rightarrow> jack_state" where
  "initial_state opened =
     \<lparr>jackbuf = jack_ringbuffer_create buffer_size, flush_please = 0,
      jack_latency = 0, time_of_latest_transfer = 0, client = opened\<rparr>"

definition jack_init :: "bool \<Rightarrow> nat option \<Rightarrow> 32 word \<Rightarrow> int \<Rightarrow> init_error + jack_state" where
  "jack_init allocated opened sample_rate activate_result =
     (if \<not> allocated then Inl (Die ''Can't allocate bytes for the JACK ringbuffer.'')
      else if opened = None then Inl (Die ''Could not start JACK server.'')
      else if sample_rate \<noteq> 44100
        then Inl (Die ''The JACK server is running at the wrong sample rate.'')
      else if activate_result \<noteq> 0 then Inl (Die ''Could not activate JACK client.'')
      else Inr (initial_state opened))"

subsection \<open>Elapsed time and frames\<close>

text \<open>
  The elapsed fixed-point time that \<^verbatim>\<open>jack_delay\<close> computes (\<^verbatim>\<open>delta\<close>, a signed
  64 bit value), and the conversion of a fixed-point time to whole frames at 44100
  frames per second: the integer part of the product, rounded down.
\<close>

definition elapsed :: "64 word \<Rightarrow> jack_state \<Rightarrow> int" where
  "elapsed time_now s = sint (time_now - time_of_latest_transfer s)"

definition frames_since_transfer :: "int \<Rightarrow> int" where
  "frames_since_transfer delta = (delta * 44100) div 2 ^ 32"

text \<open>
  The invariant of the driver: the cursors of the ring buffer are well-formed and
  everything in it is a whole number of frames.
\<close>

definition driver_inv :: "jack_state \<Rightarrow> bool" where
  "driver_inv s \<longleftrightarrow> rb_wf (jackbuf s) \<and> rb_aligned (jackbuf s)"

text \<open>
  The states the driver reaches: a successful \<^const>\<open>jack_init\<close>, then any sequence of
  \<^const>\<open>play\<close>, \<^const>\<open>process\<close> (on output buffers of \<open>nframes\<close> samples per port),
  \<^const>\<open>jack_flush\<close> and updates of the latency estimate by the graph callback.
\<close>

inductive reachable :: "jack_state \<Rightarrow> bool" where
  init: "jack_init allocated opened sample_rate activate_result = Inr s \<Longrightarrow> reachable s"
| played: "reachable s \<Longrightarrow> reachable (snd (snd (play buf samples time_now s)))"
| processed: "reachable s \<Longrightarrow> length buffer = NPORTS
    \<Longrightarrow> (\<And>c. c < NPORTS \<Longrightarrow> length (buffer ! c) = nframes)
    \<Longrightarrow> reachable (snd (snd (process nframes buffer s)))"
| flushed: "reachable s \<Longrightarrow> reachable (jack_flush s)"
| graph: "reachable s \<Longrightarrow> reachable (s\<lparr>jack_latency := latency\<rparr>)"

subsection \<open>Reading a byte queue as audio\<close>

text \<open>
  The samples of channel \<open>c\<close> in the whole frames of a byte list, converted: what the
  output buffer of port \<open>c\<close> should hold when the bytes are played.
\<close>

definition channel_samples :: "nat \<Rightarrow> byte list \<Rightarrow> jack_default_audio_sample_t list" where
  "channel_samples c bs =
     map (\<lambda>f. sample_conv (short_at bs (f * NPORTS + c))) [0..<length bs div bytes_per_frame]"

section \<open>Properties\<close>

subsection \<open>Rounding\<close>

lemma round_half_even_error: "\<bar>of_int (round_half_even q) - q\<bar> \<le> 1 / 2"
  unfolding round_half_even_def Let_def by (simp; linarith)

lemma round_half_even_nearest:
  assumes "\<bar>q - of_int n\<bar> < 1 / 2"
  shows "round_half_even q = n"
proof -
  have "\<bar>of_int (round_half_even q) - of_int n :: real\<bar> < 1"
    using round_half_even_error [of q] assms by linarith
  then have "\<bar>round_half_even q - n\<bar> < 1"
    by (metis of_int_diff of_int_abs of_int_less_1_iff)
  then show ?thesis by linarith
qed

lemma round_half_even_of_int [simp]: "round_half_even (of_int n) = n"
  by (rule round_half_even_nearest) simp

lemma round_half_even_le:
  assumes "q \<le> of_int N"
  shows "round_half_even q \<le> N"
proof (cases "q = of_int N")
  case True
  then show ?thesis by simp
next
  case False
  then have "q < of_int N" using assms by simp
  then have "\<lfloor>q\<rfloor> < N" by (simp add: floor_less_iff)
  then show ?thesis unfolding round_half_even_def Let_def by (simp; linarith)
qed

lemma round_half_even_ge:
  assumes "of_int N \<le> q"
  shows "N \<le> round_half_even q"
proof -
  have "N \<le> \<lfloor>q\<rfloor>" using assms by (simp add: le_floor_iff)
  then show ?thesis unfolding round_half_even_def Let_def by (simp; linarith)
qed

lemma pow2_pos [simp]: "0 < (2 :: real) powi k"
  by simp

lemma pow2_add: "(2 :: real) powi (a + b) = 2 powi a * 2 powi b"
  by (simp add: power_int_add)

lemma pow2_Suc: "(2 :: real) powi (k + 1) = 2 * 2 powi k"
  by (simp add: power_int_add)

lemma pow2_less_iff: "(2 :: real) powi a < 2 powi b \<longleftrightarrow> a < b"
proof
  assume "a < b"
  then show "(2 :: real) powi a < 2 powi b" by (intro power_int_strict_increasing) simp_all
next
  assume lt: "(2 :: real) powi a < 2 powi b"
  show "a < b"
  proof (rule ccontr)
    assume "\<not> a < b"
    then have "b \<le> a" by simp
    then have "(2 :: real) powi b \<le> 2 powi a" by (intro power_int_increasing) simp_all
    with lt show False by simp
  qed
qed

lemma pow2_le_iff: "(2 :: real) powi a \<le> 2 powi b \<longleftrightarrow> a \<le> b"
  using pow2_less_iff [of b a] by (simp add: not_less [symmetric])

text \<open>The exponent of a number between two neighbouring powers of two is unique.\<close>

lemma binade_unique:
  assumes "2 powi e \<le> (x :: real)" "x < 2 powi (e + 1)"
    and "2 powi e' \<le> x" "x < 2 powi (e' + 1)"
  shows "e = e'"
proof -
  have "(2 :: real) powi e < 2 powi (e' + 1)" "(2 :: real) powi e' < 2 powi (e + 1)"
    using assms by linarith+
  then have "e < e' + 1" "e' < e + 1" by (simp_all only: pow2_less_iff)
  then show ?thesis by simp
qed

lemma exponent_up_correct:
  assumes "1 \<le> x" "x < 2 ^ n"
  shows "2 powi (exponent_up n x) \<le> x \<and> x < 2 powi (exponent_up n x + 1)"
  using assms
proof (induction n arbitrary: x)
  case 0
  then show ?case by simp
next
  case (Suc n)
  show ?case
  proof (cases "x < 2")
    case True
    then show ?thesis using Suc.prems by simp
  next
    case False
    then have "1 \<le> x / 2" "x / 2 < 2 ^ n" using Suc.prems by simp_all
    from Suc.IH [OF this]
    have "2 * 2 powi (exponent_up n (x / 2)) \<le> x"
      "x < 2 * 2 powi (exponent_up n (x / 2) + 1)"
      by simp_all
    then have "2 powi (exponent_up n (x / 2) + 1) \<le> x"
      "x < 2 powi (exponent_up n (x / 2) + 1 + 1)"
      by (simp_all only: pow2_Suc)
    moreover have "exponent_up (Suc n) x = exponent_up n (x / 2) + 1"
      using False by simp
    ultimately show ?thesis by (simp only:)
  qed
qed

lemma exponent_down_one: "1 \<le> x \<Longrightarrow> exponent_down n x = 0"
  by (cases n) simp_all

lemma exponent_down_correct:
  assumes "x < 1" "1 \<le> x * 2 ^ n"
  shows "2 powi (exponent_down n x) \<le> x \<and> x < 2 powi (exponent_down n x + 1)"
  using assms
proof (induction n arbitrary: x)
  case 0
  then show ?case by simp
next
  case (Suc n)
  show ?case
  proof (cases "1 \<le> 2 * x")
    case True
    then have "exponent_down (Suc n) x = - 1"
      using Suc.prems by (simp add: exponent_down_one)
    then show ?thesis using True Suc.prems by simp
  next
    case False
    then have "2 * x < 1" "1 \<le> 2 * x * 2 ^ n" using Suc.prems by (simp_all add: mult.assoc mult.left_commute)
    from Suc.IH [OF this]
    have a: "2 powi (exponent_down n (2 * x)) \<le> 2 * x"
      and b: "2 * x < 2 powi (exponent_down n (2 * x) + 1)"
      by simp_all
    have "(2 :: real) powi (exponent_down n (2 * x)) = 2 * 2 powi (exponent_down n (2 * x) - 1)"
      using pow2_Suc [of "exponent_down n (2 * x) - 1"] by simp
    then show ?thesis using a b Suc.prems by (simp add: pow2_Suc)
  qed
qed

lemma exponent_correct:
  assumes "normal_range x"
  shows "2 powi (exponent x) \<le> \<bar>x\<bar> \<and> \<bar>x\<bar> < 2 powi (exponent x + 1)"
proof (cases "1 \<le> \<bar>x\<bar>")
  case True
  have "\<bar>x\<bar> < 2 ^ 128" using assms by (simp add: normal_range_def)
  from exponent_up_correct [OF True this] True show ?thesis by (simp add: exponent_def)
next
  case False
  have "2 powi (- 126) \<le> \<bar>x\<bar>" using assms by (simp add: normal_range_def)
  then have "1 \<le> \<bar>x\<bar> * 2 ^ 126"
    by (simp add: power_int_minus field_simps)
  from exponent_down_correct [OF _ this] False show ?thesis by (simp add: exponent_def)
qed

lemma exponent_eq:
  assumes "normal_range x" "2 powi e \<le> \<bar>x\<bar>" "\<bar>x\<bar> < 2 powi (e + 1)"
  shows "exponent x = e"
  using exponent_correct [OF assms(1)] assms(2,3) by (blast intro: binade_unique)

lemma normal_range_nonzero: "normal_range x \<Longrightarrow> x \<noteq> 0"
  by (auto simp add: normal_range_def)

lemma round_to_unfold:
  assumes "normal_range x" "2 powi e \<le> \<bar>x\<bar>" "\<bar>x\<bar> < 2 powi (e + 1)"
  shows "round_to p x
         = of_int (round_half_even (x / 2 powi (e - int p + 1))) * 2 powi (e - int p + 1)"
  using normal_range_nonzero [OF assms(1)] exponent_eq [OF assms]
  by (simp add: round_to_def Let_def)

lemma round_to_value:
  assumes "normal_range x" "2 powi e \<le> \<bar>x\<bar>" "\<bar>x\<bar> < 2 powi (e + 1)"
    and "\<bar>x / 2 powi (e - int p + 1) - of_int n\<bar> < 1 / 2"
  shows "round_to p x = of_int n * 2 powi (e - int p + 1)"
  unfolding round_to_unfold [OF assms(1-3)] round_half_even_nearest [OF assms(4)] ..

lemma round_to_error:
  assumes "normal_range x"
  shows "\<bar>round_to p x - x\<bar> \<le> \<bar>x\<bar> * 2 powi (- int p)"
proof -
  define e where "e = exponent x"
  define ulp :: real where "ulp = 2 powi (e - int p + 1)"
  define q where "q = x / ulp"
  have e: "2 powi e \<le> \<bar>x\<bar>" "\<bar>x\<bar> < 2 powi (e + 1)"
    using exponent_correct [OF assms] by (simp_all add: e_def)
  have ulp: "0 < ulp" by (simp add: ulp_def)
  have r: "round_to p x = of_int (round_half_even q) * ulp"
    unfolding q_def ulp_def by (rule round_to_unfold [OF assms e])
  have x: "x = q * ulp" using ulp by (simp add: q_def)
  have "round_to p x - q * ulp = (of_int (round_half_even q) - q) * ulp"
    unfolding r by (simp add: algebra_simps)
  then have "round_to p x - x = (of_int (round_half_even q) - q) * ulp"
    using x by simp
  then have "\<bar>round_to p x - x\<bar> = \<bar>of_int (round_half_even q) - q\<bar> * ulp"
    using ulp by (simp add: abs_mult)
  also have "\<dots> \<le> 1 / 2 * ulp"
    using round_half_even_error [of q] ulp by (intro mult_right_mono) simp_all
  also have "1 / 2 * ulp = 2 powi e * 2 powi (- int p)"
  proof -
    have "ulp = 2 powi (e + (- int p) + 1)" by (simp add: ulp_def)
    also have "\<dots> = 2 * 2 powi (e + (- int p))" by (rule pow2_Suc)
    also have "\<dots> = 2 * (2 powi e * 2 powi (- int p))" by (simp only: pow2_add)
    finally show ?thesis by simp
  qed
  also have "\<dots> \<le> \<bar>x\<bar> * 2 powi (- int p)"
    using e(1) by (intro mult_right_mono) simp_all
  finally show ?thesis .
qed

lemma round_to_exact:
  assumes nr: "normal_range x" and x: "x = of_int m * 2 powi k" and m: "\<bar>m\<bar> < 2 ^ p"
  shows "round_to p x = x"
proof -
  define e where "e = exponent x"
  define j where "j = k - e + int p - 1"
  have e: "2 powi e \<le> \<bar>x\<bar>" "\<bar>x\<bar> < 2 powi (e + 1)"
    using exponent_correct [OF nr] by (simp_all add: e_def)
  have "\<bar>x\<bar> = of_int \<bar>m\<bar> * 2 powi k" by (simp add: x abs_mult)
  also have "\<dots> < 2 ^ p * 2 powi k"
  proof (intro mult_strict_right_mono)
    have "real_of_int \<bar>m\<bar> < real_of_int (2 ^ p)" using m by (simp only: of_int_less_iff)
    then show "real_of_int \<bar>m\<bar> < 2 ^ p" by simp
  qed simp
  also have "\<dots> = 2 powi (int p + k)" by (simp add: pow2_add)
  finally have "(2 :: real) powi e < 2 powi (int p + k)" using e(1) by linarith
  then have "e < int p + k" by (simp only: pow2_less_iff)
  then have j: "0 \<le> j" by (simp add: j_def)
  have "x / 2 powi (e - int p + 1) = of_int m * (2 powi k / 2 powi (e - int p + 1))"
    by (simp add: x)
  also have "2 powi k / 2 powi (e - int p + 1) = (2 :: real) powi j"
    unfolding j_def by (simp add: power_int_diff [symmetric] algebra_simps)
  also have "(2 :: real) powi j = of_int (2 ^ nat j)"
    using j by (simp add: power_int_nonneg_exp)
  finally have q: "x / 2 powi (e - int p + 1) = of_int (m * 2 ^ nat j)" by simp
  have "round_to p x = of_int (m * 2 ^ nat j) * 2 powi (e - int p + 1)"
    unfolding round_to_unfold [OF nr e] q by (simp only: round_half_even_of_int)
  also have "\<dots> = x / 2 powi (e - int p + 1) * 2 powi (e - int p + 1)"
    by (simp only: q)
  also have "\<dots> = x" by simp
  finally show ?thesis .
qed

lemma round_to_unit_interval:
  assumes "0 \<le> x" "x \<le> 1" "x = 0 \<or> normal_range x" "0 < p"
  shows "0 \<le> round_to p x \<and> round_to p x \<le> 1"
proof (cases "x = 0 \<or> x = 1")
  case True
  then show ?thesis
  proof
    assume "x = 0"
    then show ?thesis by (simp add: round_to_def)
  next
    assume x: "x = 1"
    have "normal_range 1" by (simp add: normal_range_def power_int_minus)
    moreover have "(1 :: real) = of_int 1 * 2 powi 0" by simp
    moreover have "\<bar>1 :: int\<bar> < 2 ^ p" using assms(4) by (simp add: one_less_power)
    ultimately have "round_to p 1 = 1" by (rule round_to_exact)
    then show ?thesis by (simp add: x)
  qed
next
  case False
  then have pos: "0 < x" and lt: "x < 1" and nr: "normal_range x" using assms by auto
  define e where "e = exponent x"
  define ulp :: real where "ulp = 2 powi (e - int p + 1)"
  have e: "2 powi e \<le> \<bar>x\<bar>" "\<bar>x\<bar> < 2 powi (e + 1)"
    using exponent_correct [OF nr] by (simp_all add: e_def)
  have "(2 :: real) powi e < 2 powi 0" using e(1) lt pos by simp
  then have "e < 0" by (simp only: pow2_less_iff)
  then have j: "0 \<le> int p - 1 - e" by simp
  have ulp: "0 < ulp" by (simp add: ulp_def)
  have "1 / ulp = 2 powi (int p - 1 - e)"
    unfolding ulp_def by (simp add: power_int_minus [symmetric] divide_inverse algebra_simps)
  also have "\<dots> = of_int (2 ^ nat (int p - 1 - e))"
    using j by (simp add: power_int_nonneg_exp)
  finally have N: "1 / ulp = of_int (2 ^ nat (int p - 1 - e))" .
  have "x / ulp \<le> 1 / ulp" using lt ulp by (simp add: divide_right_mono)
  then have "round_half_even (x / ulp) \<le> 2 ^ nat (int p - 1 - e)"
    unfolding N by (rule round_half_even_le)
  then have "real_of_int (round_half_even (x / ulp)) \<le> of_int (2 ^ nat (int p - 1 - e))"
    by (simp only: of_int_le_iff)
  then have "of_int (round_half_even (x / ulp)) * ulp \<le> 1 / ulp * ulp"
    unfolding N [symmetric] using ulp by (intro mult_right_mono) simp_all
  then have hi: "of_int (round_half_even (x / ulp)) * ulp \<le> 1" using ulp by simp
  have "of_int 0 \<le> x / ulp" using pos ulp by simp
  then have "0 \<le> round_half_even (x / ulp)" by (rule round_half_even_ge)
  then have lo: "0 \<le> of_int (round_half_even (x / ulp)) * ulp" using ulp by simp
  have "round_to p x = of_int (round_half_even (x / ulp)) * ulp"
    unfolding ulp_def by (rule round_to_unfold [OF nr e])
  then show ?thesis using lo hi by simp
qed

subsection \<open>The sample converter\<close>

lemma sint16_bounds: "- 32768 \<le> sint (s :: 16 word) \<and> sint s \<le> 32767"
  using sint_ge [of s] sint_lt [of s] by simp

lemma normal_rangeI:
  assumes "1 / 2 ^ 126 \<le> \<bar>x\<bar>" "\<bar>x\<bar> < 2 ^ 128"
  shows "normal_range x"
  using assms by (simp add: normal_range_def power_int_minus_divide)

lemma short_normal_range:
  assumes "n \<noteq> 0" "\<bar>n\<bar> \<le> 32768"
  shows "normal_range (real_of_int n)" and "normal_range (real_of_int n / 32768)"
proof -
  have "1 \<le> \<bar>n\<bar>" using assms(1) by simp
  then have "real_of_int 1 \<le> real_of_int \<bar>n\<bar>" "real_of_int \<bar>n\<bar> \<le> real_of_int 32768"
    using assms(2) by (simp_all only: of_int_le_iff)
  then have b: "1 \<le> \<bar>real_of_int n\<bar>" "\<bar>real_of_int n\<bar> \<le> 32768" by simp_all
  have small: "(1 :: real) / 2 ^ 126 \<le> 1 / 32768" "(32768 :: real) < 2 ^ 128" by simp_all
  have "1 / 2 ^ 126 \<le> \<bar>real_of_int n\<bar>" "\<bar>real_of_int n\<bar> < 2 ^ 128"
    using b small by linarith+
  then show "normal_range (real_of_int n)" by (rule normal_rangeI)
  have "\<bar>real_of_int n / 32768\<bar> = \<bar>real_of_int n\<bar> / 32768" by simp
  moreover have "1 / 32768 \<le> \<bar>real_of_int n\<bar> / 32768" "\<bar>real_of_int n\<bar> / 32768 \<le> 1"
    using b by simp_all
  ultimately have "1 / 2 ^ 126 \<le> \<bar>real_of_int n / 32768\<bar>" "\<bar>real_of_int n / 32768\<bar> < 2 ^ 128"
    using small by linarith+
  then show "normal_range (real_of_int n / 32768)" by (rule normal_rangeI)
qed

lemma to_double_short:
  assumes "\<bar>n\<bar> \<le> 32768"
  shows "to_double (real_of_int n) = real_of_int n"
proof (cases "n = 0")
  case True
  then show ?thesis by (simp add: to_double_def round_to_def)
next
  case False
  have nr: "normal_range (real_of_int n)" using False assms by (rule short_normal_range)
  have "real_of_int n = of_int n * 2 powi 0" by simp
  moreover have "\<bar>n\<bar> < 2 ^ 53" using assms by simp
  ultimately show ?thesis unfolding to_double_def by (intro round_to_exact [OF nr])
qed

lemma scaled_short_exact:
  assumes "n \<noteq> 0" "\<bar>n\<bar> \<le> 32768"
  shows "to_double (real_of_int n / 32768) = real_of_int n / 32768"
    and "to_float (real_of_int n / 32768) = real_of_int n / 32768"
proof -
  let ?x = "real_of_int n / 32768"
  have nr: "normal_range ?x" using assms by (rule short_normal_range)
  have x: "?x = of_int n * 2 powi (- 15)" by (simp add: power_int_minus_divide)
  have m: "\<bar>n\<bar> < 2 ^ 53" "\<bar>n\<bar> < 2 ^ 24" using assms by simp_all
  show "to_double ?x = ?x"
    unfolding to_double_def using nr x m(1) by (rule round_to_exact)
  show "to_float ?x = ?x"
    unfolding to_float_def using nr x m(2) by (rule round_to_exact)
qed

lemma sample_conv_neg:
  assumes "sint s < 0"
  shows "sample_conv s = real_of_int (sint s) / 32768"
proof -
  let ?x = "real_of_int (sint s) / 32768"
  have b: "sint s \<noteq> 0" "\<bar>sint s\<bar> \<le> 32768" "\<bar>- sint s\<bar> \<le> 32768"
    using assms sint16_bounds [of s] by simp_all
  have "- 1.0 * real_of_int (sint s) = real_of_int (- sint s)" by (simp del: of_int_sint)
  then have m: "to_double (- 1.0 * real_of_int (sint s)) = real_of_int (- sint s)"
    using to_double_short [OF b(3)] by (simp only:)
  have q: "real_of_int (- sint s) / real_of_int SHRT_MIN = ?x"
    by (simp add: SHRT_MIN_def del: of_int_sint)
  have "sample_conv s
        = to_float (to_double (to_double (- 1.0 * real_of_int (sint s)) / real_of_int SHRT_MIN))"
    using assms by (simp only: sample_conv_def if_True)
  also have "\<dots> = to_float (to_double ?x)" by (simp only: m q)
  also have "\<dots> = ?x" by (simp only: scaled_short_exact [OF b(1,2)])
  finally show ?thesis .
qed

lemma round_to_zero [simp]: "round_to p 0 = 0"
  by (simp add: round_to_def)


lemma round_to_one:
  assumes "0 < p"
  shows "round_to p 1 = 1"
  using round_to_unit_interval [of 1 p] round_to_error [of 1 p] assms
proof -
  have nr: "normal_range 1" by (intro normal_rangeI) simp_all
  have "(1 :: real) = of_int 1 * 2 powi 0" by simp
  moreover have "\<bar>1 :: int\<bar> < 2 ^ p" using assms by (simp add: one_less_power)
  ultimately show ?thesis by (rule round_to_exact [OF nr])
qed


lemma sample_conv_nonneg_unfold:
  assumes "0 \<le> sint s"
  shows "sample_conv s = to_float (to_double (real_of_int (sint s) / 32767))"
proof -
  have b: "\<bar>sint s\<bar> \<le> 32768" using assms sint16_bounds [of s] by simp
  have "1.0 * real_of_int (sint s) = real_of_int (sint s)" by (simp del: of_int_sint)
  then have m: "to_double (1.0 * real_of_int (sint s)) = real_of_int (sint s)"
    using to_double_short [OF b] by (simp only:)
  have q: "real_of_int SHRT_MAX = 32767" by (simp add: SHRT_MAX_def)
  have "\<not> sint s < 0" using assms by simp
  then have "sample_conv s
        = to_float (to_double (to_double (1.0 * real_of_int (sint s)) / real_of_int SHRT_MAX))"
    by (simp only: sample_conv_def if_False)
  then show ?thesis by (simp only: m q)
qed

lemma quotient_rounding:
  assumes x: "1 / 32767 \<le> x" "x \<le> 1"
  shows "0 \<le> to_float (to_double x)" and "to_float (to_double x) \<le> 1"
    and "\<bar>to_float (to_double x) - x\<bar> \<le> x / 2 ^ 23"
proof -
  define d where "d = to_double x"
  define f where "f = to_float d"
  have small: "(1 :: real) / 2 ^ 126 \<le> 1 / 65534" "(1 :: real) < 2 ^ 128" by simp_all
  have xpos: "0 < x" using x(1) by linarith
  have "1 / 2 ^ 126 \<le> \<bar>x\<bar>" "\<bar>x\<bar> < 2 ^ 128" using x small by linarith+
  then have nrx: "normal_range x" by (rule normal_rangeI)
  have d01: "0 \<le> d" "d \<le> 1"
    using round_to_unit_interval [of x 53] x xpos nrx by (simp_all add: d_def to_double_def)
  have "\<bar>d - x\<bar> \<le> \<bar>x\<bar> * 2 powi (- int 53)"
    unfolding d_def to_double_def by (rule round_to_error [OF nrx])
  moreover have "\<bar>x\<bar> * 2 powi (- int 53) = x / 2 ^ 53"
    using xpos by (simp add: power_int_minus_divide)
  ultimately have dx: "\<bar>d - x\<bar> \<le> x / 2 ^ 53" by simp
  have "x / 2 ^ 53 \<le> x / 2" using xpos by (intro divide_left_mono) simp_all
  then have dlow: "x / 2 \<le> d" using dx by linarith
  have "1 / 65534 \<le> x / 2" using x(1) by simp
  then have "1 / 2 ^ 126 \<le> \<bar>d\<bar>" "\<bar>d\<bar> < 2 ^ 128" using dlow d01 small by linarith+
  then have nrd: "normal_range d" by (rule normal_rangeI)
  have f01: "0 \<le> f" "f \<le> 1"
    using round_to_unit_interval [of d 24] d01 nrd by (simp_all add: f_def to_float_def)
  have "\<bar>f - d\<bar> \<le> \<bar>d\<bar> * 2 powi (- int 24)"
    unfolding f_def to_float_def by (rule round_to_error [OF nrd])
  moreover have "\<bar>d\<bar> * 2 powi (- int 24) = d / 2 ^ 24"
    using d01 by (simp add: power_int_minus_divide)
  ultimately have fd: "\<bar>f - d\<bar> \<le> d / 2 ^ 24" by simp
  have "d \<le> x + x / 2 ^ 53" using dx by linarith
  then have "d / 2 ^ 24 \<le> (x + x / 2 ^ 53) / 2 ^ 24" by (rule divide_right_mono) simp
  then have "\<bar>f - x\<bar> \<le> (x + x / 2 ^ 53) / 2 ^ 24 + x / 2 ^ 53"
    using fd dx by linarith
  also have "\<dots> = x * ((1 + 1 / 2 ^ 53) / 2 ^ 24 + 1 / 2 ^ 53)"
    by (simp add: algebra_simps)
  also have "\<dots> \<le> x * (1 / 2 ^ 23)"
    using xpos by (intro mult_left_mono) simp_all
  finally have "\<bar>f - x\<bar> \<le> x / 2 ^ 23" by simp
  then show "0 \<le> to_float (to_double x)" "to_float (to_double x) \<le> 1"
    "\<bar>to_float (to_double x) - x\<bar> \<le> x / 2 ^ 23"
    using f01 by (simp_all add: f_def d_def)
qed

lemma sample_conv_zero: "sample_conv 0 = 0"
  by (simp add: sample_conv_nonneg_unfold to_double_def to_float_def)


lemma sample_conv_pos:
  assumes "0 < sint s"
  shows "0 \<le> sample_conv s" and "sample_conv s \<le> 1"
    and "\<bar>sample_conv s - real_of_int (sint s) / 32767\<bar> \<le> real_of_int (sint s) / 32767 / 2 ^ 23"
proof -
  have "1 \<le> real_of_int (sint s)" "real_of_int (sint s) \<le> 32767"
    using assms sint16_bounds [of s] by linarith+
  then have x: "1 / 32767 \<le> real_of_int (sint s) / 32767" "real_of_int (sint s) / 32767 \<le> 1"
    by (simp_all add: divide_right_mono del: of_int_sint)
  have u: "sample_conv s = to_float (to_double (real_of_int (sint s) / 32767))"
    using assms by (intro sample_conv_nonneg_unfold) simp
  show "0 \<le> sample_conv s" "sample_conv s \<le> 1"
    "\<bar>sample_conv s - real_of_int (sint s) / 32767\<bar> \<le> real_of_int (sint s) / 32767 / 2 ^ 23"
    unfolding u using quotient_rounding [OF x] by (simp_all only:)
qed

lemma to_double_half_quotient:
  "to_double (16384 / 32767) = 35185445863425 / 70368744177664"
proof -
  let ?x = "16384 / 32767 :: real"
  have nr: "normal_range ?x" by (intro normal_rangeI) simp_all
  have "round_to 53 ?x = of_int 4503737070518400 * 2 powi (- 1 - int 53 + 1)"
    by (rule round_to_value [OF nr]) (simp_all add: power_int_minus_divide)
  then show ?thesis by (simp add: to_double_def power_int_minus_divide)
qed

lemma to_float_half_quotient:
  "to_float (35185445863425 / 70368744177664) = 32769 / 65536"
proof -
  let ?d = "35185445863425 / 70368744177664 :: real"
  have nr: "normal_range ?d" by (intro normal_rangeI) simp_all
  have "round_to 24 ?d = of_int 8388864 * 2 powi (- 1 - int 24 + 1)"
    by (rule round_to_value [OF nr]) (simp_all add: power_int_minus_divide)
  then show ?thesis by (simp add: to_float_def power_int_minus_divide)
qed

lemma sample_conv_16384: "sample_conv 16384 = 32769 / 65536"
proof -
  have "sint (16384 :: 16 word) = 16384" by simp
  then have "sample_conv 16384 = to_float (to_double (16384 / 32767))"
    using sample_conv_nonneg_unfold [of 16384] by simp
  then show ?thesis by (simp only: to_double_half_quotient to_float_half_quotient)
qed

lemma sample_conv_one: "sample_conv 1 = 32769 / 1073741824"
proof -
  have nrx: "normal_range (1 / 32767)" by (intro normal_rangeI) simp_all
  have "round_to 53 (1 / 32767) = of_int 4503737070518400 * 2 powi ((- 15) - int 53 + 1)"
    by (rule round_to_value [OF nrx]) (simp_all add: power_int_minus_divide)
  then have d: "to_double (1 / 32767) = 35185445863425 / 1152921504606846976"
    by (simp add: to_double_def power_int_minus_divide)
  have nrd: "normal_range (35185445863425 / 1152921504606846976)" by (intro normal_rangeI) simp_all
  have "round_to 24 (35185445863425 / 1152921504606846976) = of_int 8388864 * 2 powi ((- 15) - int 24 + 1)"
    by (rule round_to_value [OF nrd]) (simp_all add: power_int_minus_divide)
  then have f: "to_float (35185445863425 / 1152921504606846976) = 32769 / 1073741824"
    by (simp add: to_float_def power_int_minus_divide)
  have "sint (1 :: 16 word) = 1" by simp
  then have "sample_conv 1 = to_float (to_double (1 / 32767))"
    using sample_conv_nonneg_unfold [of 1] by simp
  then show ?thesis by (simp only: d f)
qed

lemma sample_conv_two: "sample_conv 2 = 32769 / 536870912"
proof -
  have nrx: "normal_range (2 / 32767)" by (intro normal_rangeI) simp_all
  have "round_to 53 (2 / 32767) = of_int 4503737070518400 * 2 powi ((- 14) - int 53 + 1)"
    by (rule round_to_value [OF nrx]) (simp_all add: power_int_minus_divide)
  then have d: "to_double (2 / 32767) = 35185445863425 / 576460752303423488"
    by (simp add: to_double_def power_int_minus_divide)
  have nrd: "normal_range (35185445863425 / 576460752303423488)" by (intro normal_rangeI) simp_all
  have "round_to 24 (35185445863425 / 576460752303423488) = of_int 8388864 * 2 powi ((- 14) - int 24 + 1)"
    by (rule round_to_value [OF nrd]) (simp_all add: power_int_minus_divide)
  then have f: "to_float (35185445863425 / 576460752303423488) = 32769 / 536870912"
    by (simp add: to_float_def power_int_minus_divide)
  have "sint (2 :: 16 word) = 2" by simp
  then have "sample_conv 2 = to_float (to_double (2 / 32767))"
    using sample_conv_nonneg_unfold [of 2] by simp
  then show ?thesis by (simp only: d f)
qed

lemma sample_conv_three: "sample_conv 3 = 98307 / 1073741824"
proof -
  have nrx: "normal_range (3 / 32767)" by (intro normal_rangeI) simp_all
  have "round_to 53 (3 / 32767) = of_int 6755605605777600 * 2 powi ((- 14) - int 53 + 1)"
    by (rule round_to_value [OF nrx]) (simp_all add: power_int_minus_divide)
  then have d: "to_double (3 / 32767) = 105556337590275 / 1152921504606846976"
    by (simp add: to_double_def power_int_minus_divide)
  have nrd: "normal_range (105556337590275 / 1152921504606846976)" by (intro normal_rangeI) simp_all
  have "round_to 24 (105556337590275 / 1152921504606846976) = of_int 12583296 * 2 powi ((- 14) - int 24 + 1)"
    by (rule round_to_value [OF nrd]) (simp_all add: power_int_minus_divide)
  then have f: "to_float (105556337590275 / 1152921504606846976) = 98307 / 1073741824"
    by (simp add: to_float_def power_int_minus_divide)
  have "sint (3 :: 16 word) = 3" by simp
  then have "sample_conv 3 = to_float (to_double (3 / 32767))"
    using sample_conv_nonneg_unfold [of 3] by simp
  then show ?thesis by (simp only: d f)
qed

lemma sample_conv_four: "sample_conv 4 = 32769 / 268435456"
proof -
  have nrx: "normal_range (4 / 32767)" by (intro normal_rangeI) simp_all
  have "round_to 53 (4 / 32767) = of_int 4503737070518400 * 2 powi ((- 13) - int 53 + 1)"
    by (rule round_to_value [OF nrx]) (simp_all add: power_int_minus_divide)
  then have d: "to_double (4 / 32767) = 35185445863425 / 288230376151711744"
    by (simp add: to_double_def power_int_minus_divide)
  have nrd: "normal_range (35185445863425 / 288230376151711744)" by (intro normal_rangeI) simp_all
  have "round_to 24 (35185445863425 / 288230376151711744) = of_int 8388864 * 2 powi ((- 13) - int 24 + 1)"
    by (rule round_to_value [OF nrd]) (simp_all add: power_int_minus_divide)
  then have f: "to_float (35185445863425 / 288230376151711744) = 32769 / 268435456"
    by (simp add: to_float_def power_int_minus_divide)
  have "sint (4 :: 16 word) = 4" by simp
  then have "sample_conv 4 = to_float (to_double (4 / 32767))"
    using sample_conv_nonneg_unfold [of 4] by simp
  then show ?thesis by (simp only: d f)
qed

lemma sample_conv_min: "sample_conv (word_of_int SHRT_MIN) = - 1"
proof -
  have "sint (word_of_int SHRT_MIN :: 16 word) = - 32768" by (simp add: SHRT_MIN_def)
  then show ?thesis using sample_conv_neg [of "word_of_int SHRT_MIN"] by simp
qed

lemma sample_conv_max: "sample_conv (word_of_int SHRT_MAX) = 1"
proof -
  have "sint (word_of_int SHRT_MAX :: 16 word) = 32767" by (simp add: SHRT_MAX_def)
  then have "sample_conv (word_of_int SHRT_MAX) = to_float (to_double (32767 / 32767))"
    using sample_conv_nonneg_unfold [of "word_of_int SHRT_MAX"] by simp
  then show ?thesis by (simp add: to_double_def to_float_def round_to_one)
qed

lemma sample_conv_range: "- 1 \<le> sample_conv s \<and> sample_conv s \<le> 1"
proof -
  consider "sint s < 0" | "sint s = 0" | "0 < sint s" by linarith
  then show ?thesis
  proof cases
    case 1
    have "- 32768 \<le> real_of_int (sint s)" "real_of_int (sint s) \<le> 0"
      using 1 sint16_bounds [of s] by linarith+
    then have "- 1 \<le> real_of_int (sint s) / 32768" "real_of_int (sint s) / 32768 \<le> 1"
      by (simp_all del: of_int_sint)
    then show ?thesis unfolding sample_conv_neg [OF 1] by (simp only:)
  next
    case 2
    then have "sample_conv s = to_float (to_double (0 / 32767))"
      using sample_conv_nonneg_unfold [of s] by simp
    then show ?thesis by (simp add: to_double_def to_float_def)
  next
    case 3
    then show ?thesis using sample_conv_pos(1,2) [OF 3] by simp
  qed
qed

lemma sample_conv_above_power_of_two_quotient:
  assumes "0 < sint s"
  shows "real_of_int (sint s) / 32768 < sample_conv s"
proof -
  define t where "t = real_of_int (sint s)"
  have t: "0 < t" using assms unfolding t_def by linarith
  have "\<bar>sample_conv s - t / 32767\<bar> \<le> t / 32767 / 2 ^ 23"
    unfolding t_def by (rule sample_conv_pos(3) [OF assms])
  then have "t / 32767 - t / 32767 / 2 ^ 23 \<le> sample_conv s" by linarith
  moreover have "t / 32768 < t / 32767 - t / 32767 / 2 ^ 23"
  proof -
    have "t / 32767 - t / 32767 / 2 ^ 23 - t / 32768 = t * (1 / 32767 - 1 / 32767 / 2 ^ 23 - 1 / 32768)"
      by (simp add: algebra_simps)
    moreover have "0 < t * (1 / 32767 - 1 / 32767 / 2 ^ 23 - 1 / 32768)"
      using t by (intro mult_pos_pos) simp_all
    ultimately show ?thesis by linarith
  qed
  ultimately show ?thesis unfolding t_def by linarith
qed

lemma sint_uminus_pos16:
  assumes "0 < sint (s :: 16 word)"
  shows "sint (- s) = - sint s"
proof -
  have "sint (- s) = signed_take_bit 15 (- sint s)"
    by (simp add: sint_word_ariths)
  also have "\<dots> = - sint s"
    using assms sint16_bounds [of s] by (intro signed_take_bit_int_eq_self) simp_all
  finally show ?thesis .
qed

lemma sample_conv_asymmetric:
  assumes "0 < sint (s :: 16 word)"
  shows "sample_conv (- s) \<noteq> - sample_conv s"
proof -
  have neg: "sint (- s) < 0" using assms by (simp add: sint_uminus_pos16)
  have "sample_conv (- s) = real_of_int (sint (- s)) / 32768" using neg by (rule sample_conv_neg)
  also have "\<dots> = - (real_of_int (sint s) / 32768)"
    using assms by (simp add: sint_uminus_pos16 del: of_int_sint)
  finally have "sample_conv (- s) = - (real_of_int (sint s) / 32768)" .
  then show ?thesis using sample_conv_above_power_of_two_quotient [OF assms] by linarith
qed

text \<open>
  Claim C7, as amended. For every signed 16 bit sample, \<^const>\<open>sample_conv\<close> yields a
  value between -1 and 1. A negative sample gives exactly the sample divided by 32768
  (the quotient by \<^const>\<open>SHRT_MIN\<close> of its negation), so the map is linear on the negative
  half-range. A non-negative sample gives the quotient by 32767 (\<^const>\<open>SHRT_MAX\<close>) as
  the machine computes it, rounded to \<^verbatim>\<open>double\<close> and then to \<^verbatim>\<open>float\<close>: a value
  within the fraction \<open>1 / 2 ^ 23\<close> of the exact quotient. \<^const>\<open>SHRT_MIN\<close> goes to
  -1, 0 to 0 and \<^const>\<open>SHRT_MAX\<close> to 1, and the map is not symmetric: no positive
  sample is mapped to the negative of the image of its negation.
\<close>

theorem sample_conv_float_shape:
  "- 1 \<le> sample_conv s \<and> sample_conv s \<le> 1
   \<and> (sint s < 0 \<longrightarrow> sample_conv s = (- 1 * real_of_int (sint s)) / real_of_int SHRT_MIN
        \<and> sample_conv s = real_of_int (sint s) / 32768)
   \<and> (0 \<le> sint s \<longrightarrow>
        sample_conv s = to_float (to_double (real_of_int (sint s) / real_of_int SHRT_MAX))
        \<and> \<bar>sample_conv s - real_of_int (sint s) / 32767\<bar>
            \<le> real_of_int (sint s) / 32767 / 2 ^ 23)
   \<and> sample_conv (word_of_int SHRT_MIN) = - 1
   \<and> sample_conv 0 = 0
   \<and> sample_conv (word_of_int SHRT_MAX) = 1
   \<and> (0 < sint s \<longrightarrow> sample_conv (- s) \<noteq> - sample_conv s)"
proof -
  have neg: "sample_conv s = (- 1 * real_of_int (sint s)) / real_of_int SHRT_MIN
      \<and> sample_conv s = real_of_int (sint s) / 32768" if "sint s < 0"
    using sample_conv_neg [OF that] by (simp add: SHRT_MIN_def del: of_int_sint)
  have nonneg: "sample_conv s = to_float (to_double (real_of_int (sint s) / real_of_int SHRT_MAX))
      \<and> \<bar>sample_conv s - real_of_int (sint s) / 32767\<bar> \<le> real_of_int (sint s) / 32767 / 2 ^ 23"
    if "0 \<le> sint s"
  proof (cases "sint s = 0")
    case True
    then have "sample_conv s = to_float (to_double (0 / 32767))"
      using sample_conv_nonneg_unfold [of s] by simp
    then have "sample_conv s = 0" by (simp add: to_double_def to_float_def)
    then show ?thesis using True by (simp add: to_double_def to_float_def SHRT_MAX_def)
  next
    case False
    then have "0 < sint s" using that by simp
    from sample_conv_pos(3) [OF this] sample_conv_nonneg_unfold [OF that]
    show ?thesis by (simp add: SHRT_MAX_def del: of_int_sint)
  qed
  show ?thesis
    using sample_conv_range [of s] neg nonneg sample_conv_min sample_conv_zero sample_conv_max
      sample_conv_asymmetric [of s]
    by blast
qed

theorem sample_conv_float_shape_witness:
  "sample_conv (- 16384) = - 1 / 2
   \<and> \<bar>sample_conv 16384 - 16384 / 32767\<bar> \<le> 16384 / 32767 / 2 ^ 23
   \<and> sample_conv (- 16384) \<noteq> - sample_conv 16384"
proof -
  have n: "sint (- 16384 :: 16 word) = - 16384" and p: "sint (16384 :: 16 word) = 16384"
    by simp_all
  have hn: "sint (- 16384 :: 16 word) < 0" by simp
  have "sample_conv (- 16384) = real_of_int (sint (- 16384 :: 16 word)) / 32768"
    using sample_conv_float_shape [of "- 16384"] hn by blast
  then have a: "sample_conv (- 16384) = - 1 / 2" unfolding n by simp
  have h: "0 \<le> sint (16384 :: 16 word)" "0 < sint (16384 :: 16 word)" by simp_all
  have "\<bar>sample_conv 16384 - real_of_int (sint (16384 :: 16 word)) / 32767\<bar>
        \<le> real_of_int (sint (16384 :: 16 word)) / 32767 / 2 ^ 23"
    using sample_conv_float_shape [of 16384] h(1) by blast
  then have b: "\<bar>sample_conv 16384 - 16384 / 32767\<bar> \<le> 16384 / 32767 / 2 ^ 23"
    unfolding p by simp
  have c: "sample_conv (- 16384) \<noteq> - sample_conv 16384"
    using sample_conv_float_shape [of 16384] h(2) by blast
  show ?thesis using a b c by (intro conjI)
qed

text \<open>
  Claim C7 as stated fails: the sample 16384 is not mapped to 16384 / 32767, which no
  \<^verbatim>\<open>float\<close> represents, but to the nearest one, 32769 / 65536.
\<close>

theorem sample_conv_not_the_exact_quotient:
  "sample_conv 16384 = 32769 / 65536 \<and> sample_conv 16384 \<noteq> 16384 / 32767"
  by (simp add: sample_conv_16384)

subsection \<open>The transfer buffer: cursors, spans and content\<close>

lemma mod_distinct:
  fixes a b C :: nat
  assumes "a < b" "b - a < C"
  shows "a mod C \<noteq> b mod C"
proof
  assume eq: "a mod C = b mod C"
  then have "(b - a) mod C = 0"
    using assms(1) by (metis mod_eq_dvd_iff_nat less_imp_le_nat dvd_imp_mod_0)
  then have "C dvd (b - a)" by auto
  then have "C \<le> b - a" using assms(1) by (auto intro!: dvd_imp_le)
  with assms(2) show False by simp
qed

lemma mod_offset_low:
  fixes p i C :: nat
  assumes "p mod C + i < C"
  shows "(p + i) mod C = p mod C + i"
  using assms by (metis mod_add_left_eq mod_less)

lemma mod_offset_high:
  fixes p i C :: nat
  assumes "C \<le> p mod C + i" "i \<le> C" "0 < C"
  shows "(p + i) mod C = p mod C + i - C"
proof -
  have "p mod C < C" using assms(3) by simp
  then have lt: "p mod C + i - C < C" using assms by linarith
  have "(p + i) mod C = (p mod C + i) mod C" by (simp add: mod_add_left_eq)
  also have "\<dots> = (p mod C + i - C) mod C"
    using assms(1) by (simp add: le_mod_geq)
  also have "\<dots> = p mod C + i - C" using lt by simp
  finally show ?thesis .
qed

lemma read_vector_spans:
  "jack_ringbuffer_get_read_vector rb =
     [map (\<lambda>i. rb_buf rb (rb_read_ptr rb mod rb_size rb + i))
        [0..<min (jack_ringbuffer_read_space rb) (rb_size rb - rb_read_ptr rb mod rb_size rb)],
      map (rb_buf rb)
        [0..<jack_ringbuffer_read_space rb
              - min (jack_ringbuffer_read_space rb) (rb_size rb - rb_read_ptr rb mod rb_size rb)]]"
  by (simp add: jack_ringbuffer_get_read_vector_def Let_def)

lemma spans_append_content:
  fixes mem :: "nat \<Rightarrow> 'a"
  assumes C: "0 < C" and occ: "cnt \<le> C" and n1: "n1 = min cnt (C - p mod C)"
  shows "map (\<lambda>i. mem (p mod C + i)) [0..<n1] @ map mem [0..<cnt - n1]
         = map (\<lambda>i. mem ((p + i) mod C)) [0..<cnt]"
proof (rule nth_equalityI)
  show "length (map (\<lambda>i. mem (p mod C + i)) [0..<n1] @ map mem [0..<cnt - n1])
        = length (map (\<lambda>i. mem ((p + i) mod C)) [0..<cnt])"
    using n1 by simp
next
  fix i assume "i < length (map (\<lambda>i. mem (p mod C + i)) [0..<n1] @ map mem [0..<cnt - n1])"
  then have i: "i < cnt" using n1 by simp
  show "(map (\<lambda>i. mem (p mod C + i)) [0..<n1] @ map mem [0..<cnt - n1]) ! i
        = map (\<lambda>i. mem ((p + i) mod C)) [0..<cnt] ! i"
  proof (cases "p mod C + i < C")
    case True
    then have lt: "i < n1" using i n1 by simp
    have "(p + i) mod C = p mod C + i"
      using True by (rule mod_offset_low)
    then show ?thesis using lt i by (simp add: nth_append)
  next
    case False
    then have ge: "n1 \<le> i" and n1': "n1 = C - p mod C" using i n1 by simp_all
    have lt: "i - n1 < cnt - n1" using i ge by simp
    have "(p + i) mod C = p mod C + i - C"
      using False i occ C by (intro mod_offset_high) simp_all
    moreover have "p mod C < C" using C by simp
    then have "i - n1 = p mod C + i - C" using False n1' by linarith
    ultimately show ?thesis using lt ge i by (simp add: nth_append)
  qed
qed

lemma read_vector_concat:
  assumes "rb_wf rb"
  shows "concat (jack_ringbuffer_get_read_vector rb) = rb_content rb"
proof -
  have "0 < rb_size rb" "jack_ringbuffer_read_space rb \<le> rb_size rb"
    using assms by (simp_all add: rb_wf_def jack_ringbuffer_read_space_def)
  from spans_append_content [OF this refl, of "rb_buf rb" "rb_read_ptr rb"]
  show ?thesis
    by (simp add: jack_ringbuffer_get_read_vector_def rb_content_def Let_def)
qed

lemma write_mem_new:
  assumes C: "0 < C" and m: "m \<le> C" and n1: "n1 = min m (C - q mod C)"
    and j: "j < m" and src: "m \<le> length src"
  shows "memcpy (memcpy mem (q mod C) src n1) 0 (drop n1 src) (m - n1) ((q + j) mod C) = src ! j"
proof (cases "q mod C + j < C")
  case True
  then have pos: "(q + j) mod C = q mod C + j" by (rule mod_offset_low)
  have lt: "j < n1" using True j n1 by simp
  have "\<not> q mod C + j < m - n1"
  proof (cases "m \<le> C - q mod C")
    case True
    then show ?thesis using n1 by simp
  next
    case False
    then have "n1 = C - q mod C" using n1 by simp
    then show ?thesis using m by linarith
  qed
  then show ?thesis using pos lt by (simp add: memcpy_def)
next
  case False
  have r: "q mod C < C" using C by simp
  have pos: "(q + j) mod C = q mod C + j - C"
    using False j m C by (intro mod_offset_high) simp_all
  have n1': "n1 = C - q mod C" using False j n1 by simp
  then have idx: "q mod C + j - C = j - n1" and ge: "n1 \<le> j" using False r by linarith+
  have "j - n1 < m - n1" using j ge by simp
  moreover have "drop n1 src ! (j - n1) = src ! j"
    using ge j src by simp
  ultimately show ?thesis using pos idx by (simp add: memcpy_def)
qed

lemma write_mem_old:
  assumes C: "0 < C" and a: "a < q" and room: "q + m - a \<le> C"
    and n1: "n1 = min m (C - q mod C)"
  shows "memcpy (memcpy mem (q mod C) src n1) 0 (drop n1 src) (m - n1) (a mod C) = mem (a mod C)"
proof -
  have r: "q mod C < C" using C by simp
  have m: "m \<le> C" using a room by linarith
  have distinct: "a mod C \<noteq> (q + j) mod C" if "j < m" for j
    using that a room by (intro mod_distinct) linarith+
  have first: "\<not> (q mod C \<le> a mod C \<and> a mod C < q mod C + n1)"
  proof
    assume h: "q mod C \<le> a mod C \<and> a mod C < q mod C + n1"
    define j where "j = a mod C - q mod C"
    have j: "j < n1" "q mod C + j = a mod C" using h unfolding j_def by linarith+
    then have "q mod C + j < C" using C by simp
    then have "(q + j) mod C = a mod C" using j by (simp add: mod_offset_low)
    moreover have "j < m" using j n1 by simp
    ultimately show False using distinct [of j] by simp
  qed
  have second: "\<not> a mod C < m - n1"
  proof
    assume h: "a mod C < m - n1"
    then have n1': "n1 = C - q mod C" using n1 by simp
    define j where "j = n1 + a mod C"
    have j: "j < m" using h by (simp add: j_def)
    have "C \<le> q mod C + j" using n1' r by (simp add: j_def)
    then have "(q + j) mod C = q mod C + j - C"
      using j m C by (intro mod_offset_high) simp_all
    also have "\<dots> = a mod C" using n1' r by (simp add: j_def)
    finally show False using distinct [OF j] by simp
  qed
  show ?thesis using first second by (auto simp add: memcpy_def)
qed

lemma write_returns:
  "snd (jack_ringbuffer_write rb src cnt) = min cnt (jack_ringbuffer_write_space rb)"
  by (simp add: jack_ringbuffer_write_def Let_def)

lemma write_read_space:
  assumes "rb_wf rb"
  shows "jack_ringbuffer_read_space (fst (jack_ringbuffer_write rb src cnt))
         = jack_ringbuffer_read_space rb + min cnt (jack_ringbuffer_write_space rb)"
  using assms
  by (simp add: jack_ringbuffer_write_def Let_def jack_ringbuffer_read_space_def rb_wf_def)

lemma write_content:
  assumes wf: "rb_wf rb" and src: "min cnt (jack_ringbuffer_write_space rb) \<le> length src"
  shows "rb_content (fst (jack_ringbuffer_write rb src cnt))
         = rb_content rb @ take (min cnt (jack_ringbuffer_write_space rb)) src"
proof -
  define m where "m = min cnt (jack_ringbuffer_write_space rb)"
  define C where "C = rb_size rb"
  define rd where "rd = rb_read_ptr rb"
  define wr where "wr = rb_write_ptr rb"
  define n1 where "n1 = min m (C - wr mod C)"
  define mem' where "mem' = memcpy (memcpy (rb_buf rb) (wr mod C) src n1) 0 (drop n1 src) (m - n1)"
  have C: "0 < C" and le: "rd \<le> wr" and occ: "wr - rd \<le> C"
    using wf by (simp_all add: rb_wf_def C_def rd_def wr_def)
  have m: "m \<le> C - (wr - rd)"
    by (simp add: m_def jack_ringbuffer_write_space_def jack_ringbuffer_read_space_def
        C_def rd_def wr_def)
  have msrc: "m \<le> length src" using src by (simp add: m_def)
  have new: "fst (jack_ringbuffer_write rb src cnt)
             = rb\<lparr>rb_buf := mem', rb_write_ptr := wr + m\<rparr>"
    by (simp add: jack_ringbuffer_write_def Let_def mem'_def n1_def m_def C_def wr_def)
  have lhs: "rb_content (fst (jack_ringbuffer_write rb src cnt))
             = map (\<lambda>i. mem' ((rd + i) mod C)) [0..<wr - rd + m]"
    using le by (simp add: new rb_content_def jack_ringbuffer_read_space_def C_def rd_def wr_def)
  have rhs: "rb_content rb = map (\<lambda>i. rb_buf rb ((rd + i) mod C)) [0..<wr - rd]"
    by (simp add: rb_content_def jack_ringbuffer_read_space_def C_def rd_def wr_def)
  have "map (\<lambda>i. mem' ((rd + i) mod C)) [0..<wr - rd + m]
        = map (\<lambda>i. rb_buf rb ((rd + i) mod C)) [0..<wr - rd] @ take m src"
  proof (rule nth_equalityI)
    show "length (map (\<lambda>i. mem' ((rd + i) mod C)) [0..<wr - rd + m])
          = length (map (\<lambda>i. rb_buf rb ((rd + i) mod C)) [0..<wr - rd] @ take m src)"
      using msrc by simp
  next
    fix i assume "i < length (map (\<lambda>i. mem' ((rd + i) mod C)) [0..<wr - rd + m])"
    then have i: "i < wr - rd + m" by simp
    show "map (\<lambda>i. mem' ((rd + i) mod C)) [0..<wr - rd + m] ! i
          = (map (\<lambda>i. rb_buf rb ((rd + i) mod C)) [0..<wr - rd] @ take m src) ! i"
    proof (cases "i < wr - rd")
      case True
      have "mem' ((rd + i) mod C) = rb_buf rb ((rd + i) mod C)"
        unfolding mem'_def
        using C True m occ le by (intro write_mem_old [OF _ _ _ n1_def]) linarith+
      then show ?thesis using True i by (simp add: nth_append)
    next
      case False
      define j where "j = i - (wr - rd)"
      have j: "j < m" "rd + i = wr + j" using False i le by (simp_all add: j_def)
      have "mem' ((wr + j) mod C) = src ! j"
        unfolding mem'_def
        using C m j(1) msrc by (intro write_mem_new [OF _ _ n1_def]) linarith+
      then show ?thesis using False i j by (simp add: nth_append j_def)
    qed
  qed
  then show ?thesis using lhs rhs by (simp add: m_def)
qed

subsection \<open>The loops of the process callback\<close>

lemma update_at_boundary:
  assumes "length xs = k" "k < length zs"
  shows "(xs @ drop k zs)[k := v] = (xs @ [v]) @ drop (Suc k) zs"
proof -
  have "drop k zs = zs ! k # drop (Suc k) zs"
    using assms(2) by (simp add: Cons_nth_drop_Suc)
  then show ?thesis using assms(1) by (simp add: list_update_append)
qed

lemma convert_frame_eq:
  assumes "length jb = NPORTS"
  shows "convert_frame bs f (ifp, jb)
         = (ifp + NPORTS, map (\<lambda>c. (jb ! c)[f := sample_conv (short_at bs (ifp + c))]) [0..<NPORTS])"
proof -
  obtain a b where jb: "jb = [a, b]"
    using assms by (cases jb; cases "tl jb"; simp add: NPORTS_def)
  have "[0..<NPORTS] = [0, Suc 0]" by (simp add: NPORTS_def upt_rec)
  then show ?thesis by (simp add: convert_frame_def jb NPORTS_def)
qed

lemma convert_frames_fold:
  assumes len: "length jb = NPORTS"
    and room: "\<And>c. c < NPORTS \<Longrightarrow> offset + n \<le> length (jb ! c)"
  shows "fold (convert_frame bs) [offset..<n + offset] (0, jb)
         = (n * NPORTS,
            map (\<lambda>c. take offset (jb ! c)
                      @ map (\<lambda>f. sample_conv (short_at bs (f * NPORTS + c))) [0..<n]
                      @ drop (offset + n) (jb ! c)) [0..<NPORTS])"
  using room
proof (induction n)
  case 0
  have "map (\<lambda>c. take offset (jb ! c) @ drop offset (jb ! c)) [0..<NPORTS] = jb"
    using len by (intro nth_equalityI) simp_all
  then show ?case by simp
next
  case (Suc n)
  let ?g = "\<lambda>c f. sample_conv (short_at bs (f * NPORTS + c))"
  let ?J = "map (\<lambda>c. take offset (jb ! c) @ map (?g c) [0..<n] @ drop (offset + n) (jb ! c))
              [0..<NPORTS]"
  have IH: "fold (convert_frame bs) [offset..<n + offset] (0, jb) = (n * NPORTS, ?J)"
    using Suc by (simp add: Suc_leD)
  have upt: "[offset..<Suc n + offset] = [offset..<n + offset] @ [n + offset]" by simp
  have step: "(?J ! c)[n + offset := sample_conv (short_at bs (n * NPORTS + c))]
              = take offset (jb ! c) @ map (?g c) [0..<Suc n] @ drop (offset + Suc n) (jb ! c)"
    if c: "c < NPORTS" for c
  proof -
    have l: "offset + Suc n \<le> length (jb ! c)" using Suc.prems c by simp
    then have "length (take offset (jb ! c) @ map (?g c) [0..<n]) = n + offset" by simp
    from update_at_boundary [OF this, of "jb ! c"] l c
    show ?thesis by (simp add: add.commute)
  qed
  have "convert_frame bs (n + offset) (n * NPORTS, ?J)
        = (n * NPORTS + NPORTS,
           map (\<lambda>c. (?J ! c)[n + offset := sample_conv (short_at bs (n * NPORTS + c))])
             [0..<NPORTS])"
    by (rule convert_frame_eq) simp
  also have "map (\<lambda>c. (?J ! c)[n + offset := sample_conv (short_at bs (n * NPORTS + c))])
               [0..<NPORTS]
             = map (\<lambda>c. take offset (jb ! c) @ map (?g c) [0..<Suc n]
                         @ drop (offset + Suc n) (jb ! c)) [0..<NPORTS]"
    using step by (intro map_cong) simp_all
  finally show ?case unfolding upt fold_append by (simp add: IH)
qed

lemma deinterleave_and_convert_eq:
  assumes "length jb = NPORTS"
    and "\<And>c. c < NPORTS \<Longrightarrow> offset + n \<le> length (jb ! c)"
  shows "deinterleave_and_convert bs jb offset n
         = map (\<lambda>c. take offset (jb ! c)
                   @ map (\<lambda>f. sample_conv (short_at bs (f * NPORTS + c))) [0..<n]
                   @ drop (offset + n) (jb ! c)) [0..<NPORTS]"
  using convert_frames_fold [OF assms] by (simp add: deinterleave_and_convert_def)

lemma silence_frame_eq:
  assumes "length jb = NPORTS"
  shows "fold (\<lambda>i jb. jb[i := (jb ! i)[fw := 0]]) [0..<NPORTS] jb
         = map (\<lambda>c. (jb ! c)[fw := 0]) [0..<NPORTS]"
proof -
  obtain a b where jb: "jb = [a, b]"
    using assms by (cases jb; cases "tl jb"; simp add: NPORTS_def)
  have "[0..<NPORTS] = [0, Suc 0]" by (simp add: NPORTS_def upt_rec)
  then show ?thesis by (simp add: jb)
qed

lemma fill_silence_eq:
  assumes "length jb = NPORTS"
    and "\<And>c. c < NPORTS \<Longrightarrow> fw + n \<le> length (jb ! c)"
  shows "fill_silence n fw jb
         = map (\<lambda>c. take fw (jb ! c) @ replicate n 0 @ drop (fw + n) (jb ! c)) [0..<NPORTS]"
  using assms
proof (induction n arbitrary: fw jb)
  case 0
  have "map (\<lambda>c. take fw (jb ! c) @ drop fw (jb ! c)) [0..<NPORTS] = jb"
    using 0(1) by (intro nth_equalityI) simp_all
  then show ?case by simp
next
  case (Suc n)
  let ?J = "map (\<lambda>c. (jb ! c)[fw := 0]) [0..<NPORTS]"
  have "fill_silence (Suc n) fw jb = fill_silence n (fw + 1) ?J"
    by (simp add: silence_frame_eq [OF Suc.prems(1)])
  also have "\<dots> = map (\<lambda>c. take (fw + 1) (?J ! c) @ replicate n 0 @ drop (fw + 1 + n) (?J ! c))
                      [0..<NPORTS]"
    using Suc.prems(2) by (intro Suc.IH) simp_all
  also have "\<dots> = map (\<lambda>c. take fw (jb ! c) @ replicate (Suc n) 0 @ drop (fw + Suc n) (jb ! c))
                      [0..<NPORTS]"
  proof (intro map_cong refl)
    fix c assume "c \<in> set [0..<NPORTS]"
    then have c: "c < NPORTS" by simp
    then have l: "fw < length (jb ! c)" using Suc.prems(2) [of c] by simp
    have "take (fw + 1) ((jb ! c)[fw := 0]) = take fw (jb ! c) @ [0]"
      using l by (simp add: take_Suc_conv_app_nth)
    then show "take (fw + 1) (?J ! c) @ replicate n 0 @ drop (fw + 1 + n) (?J ! c)
               = take fw (jb ! c) @ replicate (Suc n) 0 @ drop (fw + Suc n) (jb ! c)"
      using c by simp
  qed
  finally show ?case .
qed

lemma channel_samples_length [simp]:
  "length (channel_samples c bs) = length bs div bytes_per_frame"
  by (simp add: channel_samples_def)

lemma take_channel_samples:
  assumes "k \<le> length bs div bytes_per_frame"
  shows "take k (channel_samples c bs)
         = map (\<lambda>f. sample_conv (short_at bs (f * NPORTS + c))) [0..<k]"
  using assms by (simp add: channel_samples_def take_map)

lemma short_at_append_left:
  assumes "2 * k + 1 < length xs"
  shows "short_at (xs @ ys) k = short_at xs k"
  using assms by (simp add: short_at_def nth_append)

lemma short_at_append_right:
  assumes "length xs = 2 * m" "m \<le> k"
  shows "short_at (xs @ ys) k = short_at ys (k - m)"
proof -
  have "2 * k - 2 * m = 2 * (k - m)" "Suc (2 * k) - 2 * m = 2 * (k - m) + 1"
    using assms(2) by simp_all
  then show ?thesis using assms by (simp add: short_at_def nth_append)
qed

lemma take_channel_samples_append:
  assumes c: "c < NPORTS" and k: "k \<le> length xs div bytes_per_frame"
  shows "take k (channel_samples c (xs @ ys)) = take k (channel_samples c xs)"
proof -
  have k': "k \<le> length (xs @ ys) div bytes_per_frame"
    using k by (simp add: bytes_per_frame_def)
  have "short_at (xs @ ys) (f * NPORTS + c) = short_at xs (f * NPORTS + c)" if "f < k" for f
  proof -
    have "4 * Suc f \<le> length xs" using that k by (simp add: bytes_per_frame_def)
    then show ?thesis using c by (intro short_at_append_left) (simp add: NPORTS_def)
  qed
  then show ?thesis
    unfolding take_channel_samples [OF k] take_channel_samples [OF k'] by simp
qed

lemma channel_samples_append:
  assumes c: "c < NPORTS" and al: "bytes_per_frame dvd length xs"
  shows "channel_samples c (xs @ ys) = channel_samples c xs @ channel_samples c ys"
proof -
  obtain q where q: "length xs = 4 * q" using al by (auto simp: bytes_per_frame_def)
  have len: "length (xs @ ys) div bytes_per_frame = q + length ys div bytes_per_frame"
    by (simp add: q bytes_per_frame_def)
  show ?thesis
  proof (rule nth_equalityI)
    show "length (channel_samples c (xs @ ys))
          = length (channel_samples c xs @ channel_samples c ys)"
      using len by (simp add: q bytes_per_frame_def)
  next
    fix f assume "f < length (channel_samples c (xs @ ys))"
    then have f: "f < q + length ys div bytes_per_frame" using len by simp
    show "channel_samples c (xs @ ys) ! f = (channel_samples c xs @ channel_samples c ys) ! f"
    proof (cases "f < q")
      case True
      then have "4 * Suc f \<le> length xs" by (simp add: q)
      then have "short_at (xs @ ys) (f * NPORTS + c) = short_at xs (f * NPORTS + c)"
        using c by (intro short_at_append_left) (simp add: NPORTS_def)
      then show ?thesis using True f len
        by (simp add: channel_samples_def nth_append q bytes_per_frame_def)
    next
      case False
      have "short_at (xs @ ys) (f * NPORTS + c) = short_at ys (f * NPORTS + c - 2 * q)"
        using False by (intro short_at_append_right) (simp_all add: q NPORTS_def)
      moreover have "f * NPORTS + c - 2 * q = (f - q) * NPORTS + c"
        using False by (simp add: NPORTS_def diff_mult_distrib)
      ultimately show ?thesis using False f len
        by (simp add: channel_samples_def nth_append q bytes_per_frame_def)
    qed
  qed
qed

lemma span_step_eq:
  assumes len: "length jb = NPORTS"
    and room: "\<And>c. c < NPORTS \<Longrightarrow> fw + n \<le> length (jb ! c)"
    and k: "k = min (length v div bytes_per_frame) n"
  shows "span_step v (jb, fw, n)
         = (map (\<lambda>c. take fw (jb ! c) @ take k (channel_samples c v) @ drop (fw + k) (jb ! c))
              [0..<NPORTS],
            fw + k, n - k)"
proof -
  have fr: "(if length v div bytes_per_frame > n then n else length v div bytes_per_frame) = k"
    using k by simp
  have kn: "k \<le> n" and kv: "k \<le> length v div bytes_per_frame" using k by simp_all
  have "deinterleave_and_convert v jb fw k
        = map (\<lambda>c. take fw (jb ! c)
                  @ map (\<lambda>f. sample_conv (short_at v (f * NPORTS + c))) [0..<k]
                  @ drop (fw + k) (jb ! c)) [0..<NPORTS]"
    using len room kn by (intro deinterleave_and_convert_eq) (simp_all add: le_trans [OF _ room])
  then show ?thesis
    by (simp add: span_step_def Let_def fr take_channel_samples [OF kv])
qed

lemma process_flush_eq:
  assumes fl: "flush_please s \<noteq> 0" and len: "length jb = NPORTS"
    and room: "\<And>c. c < NPORTS \<Longrightarrow> n \<le> length (jb ! c)"
  shows "process n jb s
         = (0, map (\<lambda>c. replicate n 0 @ drop n (jb ! c)) [0..<NPORTS],
            s\<lparr>jackbuf := jack_ringbuffer_read_advance (jackbuf s)
                            (jack_ringbuffer_read_space (jackbuf s)),
              flush_please := 0\<rparr>)"
proof -
  have "fill_silence n 0 jb
        = map (\<lambda>c. take 0 (jb ! c) @ replicate n 0 @ drop (0 + n) (jb ! c)) [0..<NPORTS]"
    using len room by (intro fill_silence_eq) simp_all
  then show ?thesis using fl by (simp add: process_def Let_def)
qed

lemma process_spans_eq:
  assumes fl: "flush_please s = 0" and len: "length jb = NPORTS"
    and room: "\<And>c. c < NPORTS \<Longrightarrow> n \<le> length (jb ! c)"
    and v: "jack_ringbuffer_get_read_vector (jackbuf s) = [v0, v1]"
    and k0: "k0 = min (length v0 div bytes_per_frame) n"
    and k1: "k1 = min (length v1 div bytes_per_frame) (n - k0)"
  shows "process n jb s
         = (0,
            map (\<lambda>c. take k0 (channel_samples c v0) @ take k1 (channel_samples c v1)
                      @ replicate (n - k0 - k1) 0 @ drop n (jb ! c)) [0..<NPORTS],
            s\<lparr>jackbuf := jack_ringbuffer_read_advance (jackbuf s)
                            ((k0 + k1) * bytes_per_frame)\<rparr>)"
proof -
  let ?A = "\<lambda>c. take k0 (channel_samples c v0)"
  let ?B = "\<lambda>c. take k1 (channel_samples c v1)"
  let ?jb1 = "map (\<lambda>c. ?A c @ drop k0 (jb ! c)) [0..<NPORTS]"
  let ?jb2 = "map (\<lambda>c. ?A c @ ?B c @ drop (k0 + k1) (jb ! c)) [0..<NPORTS]"
  have lA: "length (?A c) = k0" and lB: "length (?B c) = k1" for c
    using k0 k1 by simp_all
  have kn: "k0 + k1 \<le> n" using k0 k1 by simp
  have l1: "length (?jb1 ! c) = length (jb ! c)" if "c < NPORTS" for c
  proof -
    have "length (?A c @ drop k0 (jb ! c)) = k0 + (length (jb ! c) - k0)"
      by (simp only: length_append length_drop lA)
    moreover have "k0 \<le> length (jb ! c)" using kn room [OF that] by simp
    ultimately show ?thesis using that by simp
  qed
  have l2: "length (?jb2 ! c) = length (jb ! c)" if "c < NPORTS" for c
  proof -
    have "length (?A c @ ?B c @ drop (k0 + k1) (jb ! c))
          = k0 + (k1 + (length (jb ! c) - (k0 + k1)))"
      by (simp only: length_append length_drop lA lB)
    moreover have "k0 + k1 \<le> length (jb ! c)" using kn room [OF that] by simp
    ultimately show ?thesis using that by simp
  qed
  have "span_step v0 (jb, 0, n)
        = (map (\<lambda>c. take 0 (jb ! c) @ ?A c @ drop (0 + k0) (jb ! c)) [0..<NPORTS],
           0 + k0, n - k0)"
    using len room k0 by (intro span_step_eq) simp_all
  then have s1: "span_step v0 (jb, 0, n) = (?jb1, k0, n - k0)" by simp
  have "span_step v1 (?jb1, k0, n - k0)
        = (map (\<lambda>c. take k0 (?jb1 ! c) @ ?B c @ drop (k0 + k1) (?jb1 ! c)) [0..<NPORTS],
           k0 + k1, n - k0 - k1)"
  proof (intro span_step_eq)
    show "length ?jb1 = NPORTS" by simp
    show "k0 + (n - k0) \<le> length (?jb1 ! c)" if "c < NPORTS" for c
      using l1 [OF that] room [OF that] kn by simp
    show "k1 = min (length v1 div bytes_per_frame) (n - k0)" by (rule k1)
  qed
  also have "map (\<lambda>c. take k0 (?jb1 ! c) @ ?B c @ drop (k0 + k1) (?jb1 ! c)) [0..<NPORTS]
             = ?jb2"
  proof (intro map_cong refl)
    fix c assume "c \<in> set [0..<NPORTS]"
    then have c: "?jb1 ! c = ?A c @ drop k0 (jb ! c)" by simp
    have "take k0 (?A c @ drop k0 (jb ! c)) = ?A c"
      using lA [of c] by (simp only: take_append take_all order_refl diff_self_eq_0 take_0 append_Nil2)
    moreover have "drop (k0 + k1) (?A c @ drop k0 (jb ! c)) = drop (k0 + k1) (jb ! c)"
      using lA [of c] by (simp only: drop_append drop_all le_add1 diff_add_inverse drop_drop append_Nil add.commute)
    ultimately show "take k0 (?jb1 ! c) @ ?B c @ drop (k0 + k1) (?jb1 ! c)
                     = ?A c @ ?B c @ drop (k0 + k1) (jb ! c)"
      unfolding c by simp
  qed
  finally have s2: "span_step v1 (?jb1, k0, n - k0) = (?jb2, k0 + k1, n - k0 - k1)" .
  have "fill_silence (n - k0 - k1) (k0 + k1) ?jb2
        = map (\<lambda>c. take (k0 + k1) (?jb2 ! c) @ replicate (n - k0 - k1) 0
                  @ drop (k0 + k1 + (n - k0 - k1)) (?jb2 ! c)) [0..<NPORTS]"
  proof (intro fill_silence_eq)
    show "length ?jb2 = NPORTS" by simp
    show "k0 + k1 + (n - k0 - k1) \<le> length (?jb2 ! c)" if "c < NPORTS" for c
      using l2 [OF that] room [OF that] kn by simp
  qed
  also have "\<dots> = map (\<lambda>c. ?A c @ ?B c @ replicate (n - k0 - k1) 0 @ drop n (jb ! c))
                      [0..<NPORTS]"
  proof (intro map_cong refl)
    fix c assume "c \<in> set [0..<NPORTS]"
    then have c: "?jb2 ! c = (?A c @ ?B c) @ drop (k0 + k1) (jb ! c)" by simp
    have lAB: "length (?A c @ ?B c) = k0 + k1"
      by (simp only: length_append lA lB)
    have "take (k0 + k1) ((?A c @ ?B c) @ drop (k0 + k1) (jb ! c)) = ?A c @ ?B c"
      using lAB by (metis append_eq_conv_conj)
    moreover have "drop (k0 + k1 + (n - k0 - k1)) ((?A c @ ?B c) @ drop (k0 + k1) (jb ! c))
                   = drop n (jb ! c)"
    proof -
      have "drop (k0 + k1 + (n - k0 - k1)) ((?A c @ ?B c) @ drop (k0 + k1) (jb ! c))
            = drop (n - k0 - k1) (drop (k0 + k1) (jb ! c))"
        using lAB by (metis add.commute append_eq_conv_conj drop_drop)
      also have "\<dots> = drop n (jb ! c)" using kn by simp
      finally show ?thesis .
    qed
    ultimately show "take (k0 + k1) (?jb2 ! c) @ replicate (n - k0 - k1) 0
                       @ drop (k0 + k1 + (n - k0 - k1)) (?jb2 ! c)
                     = ?A c @ ?B c @ replicate (n - k0 - k1) 0 @ drop n (jb ! c)"
      unfolding c by simp
  qed
  finally have s3: "fill_silence (n - k0 - k1) (k0 + k1) ?jb2
        = map (\<lambda>c. ?A c @ ?B c @ replicate (n - k0 - k1) 0 @ drop n (jb ! c)) [0..<NPORTS]" .
  show ?thesis using fl s3 by (simp add: process_def Let_def v s1 s2)
qed

lemma read_advance_content:
  assumes "m \<le> jack_ringbuffer_read_space rb"
  shows "rb_content (jack_ringbuffer_read_advance rb m) = drop m (rb_content rb)"
proof -
  let ?f = "\<lambda>i. rb_buf rb ((rb_read_ptr rb + i) mod rb_size rb)"
  let ?cnt = "jack_ringbuffer_read_space rb"
  have "rb_content (jack_ringbuffer_read_advance rb m) = map (\<lambda>i. ?f (i + m)) [0..<?cnt - m]"
    by (simp add: rb_content_def jack_ringbuffer_read_advance_def jack_ringbuffer_read_space_def
        ac_simps)
  also have "\<dots> = map ?f (map (\<lambda>i. i + m) [0..<?cnt - m])"
    by (simp add: comp_def)
  also have "\<dots> = map ?f [m..<?cnt]"
    using assms map_add_upt [of m "?cnt - m"] by (simp del: map_map)
  also have "\<dots> = drop m (rb_content rb)"
    by (simp add: rb_content_def drop_map)
  finally show ?thesis .
qed

lemma read_advance_wf:
  assumes "rb_wf rb" "m \<le> jack_ringbuffer_read_space rb"
  shows "rb_wf (jack_ringbuffer_read_advance rb m)"
  using assms
  unfolding rb_wf_def jack_ringbuffer_read_advance_def jack_ringbuffer_read_space_def
  by (simp; linarith)

lemma read_advance_aligned:
  assumes "rb_aligned rb" "bytes_per_frame dvd m"
  shows "rb_aligned (jack_ringbuffer_read_advance rb m)"
  using assms by (simp add: rb_aligned_def jack_ringbuffer_read_advance_def)

lemma read_space_aligned:
  assumes "rb_aligned rb"
  shows "bytes_per_frame dvd jack_ringbuffer_read_space rb"
  using assms by (simp add: rb_aligned_def jack_ringbuffer_read_space_def dvd_diff_nat)

lemma write_space_aligned:
  assumes "rb_aligned rb"
  shows "bytes_per_frame dvd jack_ringbuffer_write_space rb"
  using assms read_space_aligned [OF assms]
  by (simp add: rb_aligned_def jack_ringbuffer_write_space_def dvd_diff_nat)

lemma write_wf:
  assumes "rb_wf rb"
  shows "rb_wf (fst (jack_ringbuffer_write rb src cnt))"
  using assms
  unfolding rb_wf_def jack_ringbuffer_write_def Let_def jack_ringbuffer_write_space_def
    jack_ringbuffer_read_space_def
  by (simp; linarith)

lemma write_aligned:
  assumes "rb_aligned rb" "bytes_per_frame dvd cnt"
  shows "rb_aligned (fst (jack_ringbuffer_write rb src cnt))"
proof -
  have "bytes_per_frame dvd min cnt (jack_ringbuffer_write_space rb)"
    using assms(2) write_space_aligned [OF assms(1)] by (simp add: min_def)
  then show ?thesis using assms(1)
    by (simp add: rb_aligned_def jack_ringbuffer_write_def Let_def)
qed

lemma first_span_aligned:
  assumes "rb_aligned rb"
  shows "bytes_per_frame dvd
           min (jack_ringbuffer_read_space rb) (rb_size rb - rb_read_ptr rb mod rb_size rb)"
proof -
  have "bytes_per_frame dvd rb_read_ptr rb mod rb_size rb"
    using assms by (simp add: rb_aligned_def dvd_mod)
  then have "bytes_per_frame dvd rb_size rb - rb_read_ptr rb mod rb_size rb"
    using assms by (simp add: rb_aligned_def dvd_diff_nat)
  then show ?thesis using read_space_aligned [OF assms] by (simp add: min_def)
qed

lemma spans_take_combine:
  assumes c: "c < NPORTS" and al: "bytes_per_frame dvd length v0"
    and k0: "k0 = min (length v0 div bytes_per_frame) n"
    and k1: "k1 = min (length v1 div bytes_per_frame) (n - k0)"
  shows "take k0 (channel_samples c v0) @ take k1 (channel_samples c v1)
         = take (min (length (v0 @ v1) div bytes_per_frame) n) (channel_samples c (v0 @ v1))"
    and "k0 + k1 = min (length (v0 @ v1) div bytes_per_frame) n"
proof -
  obtain q where q: "length v0 = 4 * q" using al by (auto simp: bytes_per_frame_def)
  have len: "length (v0 @ v1) div bytes_per_frame = q + length v1 div bytes_per_frame"
    and q': "length v0 div bytes_per_frame = q"
    by (simp_all add: q bytes_per_frame_def)
  show sum: "k0 + k1 = min (length (v0 @ v1) div bytes_per_frame) n"
    unfolding len k1 k0 q' by simp
  show "take k0 (channel_samples c v0) @ take k1 (channel_samples c v1)
        = take (min (length (v0 @ v1) div bytes_per_frame) n) (channel_samples c (v0 @ v1))"
  proof (cases "n \<le> q")
    case True
    then have "k0 = n" "k1 = 0" using k0 k1 q' by simp_all
    moreover have "min (length (v0 @ v1) div bytes_per_frame) n = n"
      using True len by simp
    moreover have "take n (channel_samples c (v0 @ v1)) = take n (channel_samples c v0)"
      using True q' by (intro take_channel_samples_append [OF c]) simp
    ultimately show ?thesis by simp
  next
    case False
    then have k0': "k0 = q" using k0 q' by simp
    have "take (k0 + k1) (channel_samples c v0 @ channel_samples c v1)
          = channel_samples c v0 @ take k1 (channel_samples c v1)"
      using k0' q' by simp
    then show ?thesis
      unfolding sum [symmetric] channel_samples_append [OF c al] using k0' q' by simp
  qed
qed

lemma process_aligned_eq:
  assumes fl: "flush_please s = 0" and len: "length jb = NPORTS"
    and room: "\<And>c. c < NPORTS \<Longrightarrow> n \<le> length (jb ! c)"
    and wf: "rb_wf (jackbuf s)" and al: "rb_aligned (jackbuf s)"
    and k: "k = min (jack_ringbuffer_read_space (jackbuf s) div bytes_per_frame) n"
  shows "process n jb s
         = (0,
            map (\<lambda>c. take k (channel_samples c (rb_content (jackbuf s)))
                      @ replicate (n - k) 0 @ drop n (jb ! c)) [0..<NPORTS],
            s\<lparr>jackbuf := jack_ringbuffer_read_advance (jackbuf s) (k * bytes_per_frame)\<rparr>)"
proof -
  let ?rb = "jackbuf s"
  define v0 where "v0 = map (\<lambda>i. rb_buf ?rb (rb_read_ptr ?rb mod rb_size ?rb + i))
        [0..<min (jack_ringbuffer_read_space ?rb) (rb_size ?rb - rb_read_ptr ?rb mod rb_size ?rb)]"
  define v1 where "v1 = map (rb_buf ?rb)
        [0..<jack_ringbuffer_read_space ?rb
              - min (jack_ringbuffer_read_space ?rb)
                  (rb_size ?rb - rb_read_ptr ?rb mod rb_size ?rb)]"
  define k0 where "k0 = min (length v0 div bytes_per_frame) n"
  define k1 where "k1 = min (length v1 div bytes_per_frame) (n - k0)"
  have v: "jack_ringbuffer_get_read_vector ?rb = [v0, v1]"
    unfolding v0_def v1_def by (rule read_vector_spans)
  have cat: "v0 @ v1 = rb_content ?rb"
    using read_vector_concat [OF wf] by (simp add: v)
  have l0: "bytes_per_frame dvd length v0"
    using first_span_aligned [OF al] by (simp add: v0_def)
  have lcat: "length (v0 @ v1) = jack_ringbuffer_read_space ?rb"
    unfolding cat by (simp add: rb_content_def)
  have ksum: "k0 + k1 = k"
    using spans_take_combine(2) [OF _ l0 k0_def k1_def, of 0] lcat k
    by (simp add: NPORTS_def)
  have chan: "take k0 (channel_samples c v0) @ take k1 (channel_samples c v1)
              = take k (channel_samples c (rb_content ?rb))" if "c < NPORTS" for c
    using spans_take_combine(1) [OF that l0 k0_def k1_def] lcat k cat by simp
  have "process n jb s
        = (0,
           map (\<lambda>c. take k0 (channel_samples c v0) @ take k1 (channel_samples c v1)
                     @ replicate (n - k0 - k1) 0 @ drop n (jb ! c)) [0..<NPORTS],
           s\<lparr>jackbuf := jack_ringbuffer_read_advance ?rb ((k0 + k1) * bytes_per_frame)\<rparr>)"
    using fl len room v k0_def k1_def by (rule process_spans_eq)
  also have "map (\<lambda>c. take k0 (channel_samples c v0) @ take k1 (channel_samples c v1)
                     @ replicate (n - k0 - k1) 0 @ drop n (jb ! c)) [0..<NPORTS]
             = map (\<lambda>c. take k (channel_samples c (rb_content ?rb))
                      @ replicate (n - k) 0 @ drop n (jb ! c)) [0..<NPORTS]"
  proof (intro map_cong refl)
    fix c assume "c \<in> set [0..<NPORTS]"
    then have "c < NPORTS" by simp
    from chan [OF this] ksum
    show "take k0 (channel_samples c v0) @ take k1 (channel_samples c v1)
            @ replicate (n - k0 - k1) 0 @ drop n (jb ! c)
          = take k (channel_samples c (rb_content ?rb)) @ replicate (n - k) 0 @ drop n (jb ! c)"
      by (metis append.assoc diff_diff_left)
  qed
  finally show ?thesis by (simp add: ksum)
qed

subsection \<open>The arithmetic of the delay estimate\<close>

lemma word_combine:
  "(ucast (l :: 32 word) :: 64 word) + of_nat n - f = word_of_int (uint l + int n - sint f)"
proof -
  have "(ucast l :: 64 word) = word_of_int (uint l)" by (rule ucast_eq)
  moreover have "(of_nat n :: 64 word) = word_of_int (int n)" by simp
  moreover have "f = word_of_int (sint f)" by simp
  ultimately show ?thesis by (metis wi_hom_add wi_hom_sub)
qed

lemma sint_times_rate:
  "sint ((d :: 64 word) * 44100) = signed_take_bit 63 (sint d * 44100)"
proof -
  have "sint (d * 44100) = signed_take_bit 63 (sint d * sint (44100 :: 64 word))"
    by (simp only: sint_word_ariths) simp
  then show ?thesis by simp
qed

lemma sint_shift32: "sint (signed_drop_bit 32 (w :: 64 word)) = sint w div 2 ^ 32"
  by (simp only: sint_signed_drop_bit_eq drop_bit_eq_div)

lemma jack_delay_value:
  "snd (jack_delay now s)
   = ucast (jack_latency s)
     + of_nat (jack_ringbuffer_read_space (jackbuf s) div bytes_per_frame)
     - signed_drop_bit 32 ((now - time_of_latest_transfer s) * 44100)"
  by (simp only: jack_delay_def Let_def snd_conv)

lemma jack_delay_sint:
  "sint (snd (jack_delay now s))
   = signed_take_bit 63 (uint (jack_latency s)
       + int (jack_ringbuffer_read_space (jackbuf s) div bytes_per_frame)
       - signed_take_bit 63 (elapsed now s * 44100) div 2 ^ 32)"
proof -
  have "sint (signed_drop_bit 32 ((now - time_of_latest_transfer s) * 44100))
        = signed_take_bit 63 (elapsed now s * 44100) div 2 ^ 32"
    by (simp only: sint_shift32 sint_times_rate elapsed_def)
  then show ?thesis
    by (simp only: jack_delay_value word_combine sint_sbintrunc') simp
qed

lemma jack_delay_exact:
  assumes lo: "- (2 ^ 63) \<le> elapsed now s * 44100" and hi: "elapsed now s * 44100 < 2 ^ 63"
    and occ: "jack_ringbuffer_read_space (jackbuf s) div bytes_per_frame < 2 ^ 62"
  shows "sint (snd (jack_delay now s))
         = uint (jack_latency s)
           + int (jack_ringbuffer_read_space (jackbuf s) div bytes_per_frame)
           - frames_since_transfer (elapsed now s)"
proof -
  define p where "p = elapsed now s * 44100"
  define f where "f = p div 2 ^ 32"
  define n where "n = int (jack_ringbuffer_read_space (jackbuf s) div bytes_per_frame)"
  define l where "l = uint (jack_latency s)"
  have p: "signed_take_bit 63 p = p"
    using lo hi unfolding p_def by (intro signed_take_bit_int_eq_self) simp_all
  have "p = 4294967296 * f + p mod 4294967296" by (simp add: f_def)
  moreover have "0 \<le> p mod 4294967296" "p mod 4294967296 < 4294967296" by simp_all
  ultimately have f: "- (2 ^ 31) \<le> f" "f < 2 ^ 31"
    using lo hi unfolding p_def [symmetric] by simp_all
  have n: "0 \<le> n" "n < 2 ^ 62" using occ by (simp_all add: n_def)
  have l: "0 \<le> l" "l < 2 ^ 32" using uint_lt2p [of "jack_latency s"] by (simp_all add: l_def)
  have "signed_take_bit 63 (l + n - f) = l + n - f"
    using f n l by (intro signed_take_bit_int_eq_self) simp_all
  then show ?thesis
    unfolding jack_delay_sint frames_since_transfer_def
    using p by (simp add: p_def f_def n_def l_def)
qed

subsection \<open>The invariant of the driver\<close>

lemma create_inv:
  assumes "0 < sz" "bytes_per_frame dvd sz"
  shows "rb_wf (jack_ringbuffer_create sz) \<and> rb_aligned (jack_ringbuffer_create sz)"
  using assms by (simp add: rb_wf_def rb_aligned_def jack_ringbuffer_create_def)

lemma initial_state_inv: "driver_inv (initial_state opened)"
  using create_inv [of buffer_size]
  by (simp add: driver_inv_def initial_state_def buffer_size_def bytes_per_frame_def)

lemma jack_init_inv:
  assumes "jack_init allocated opened rate act = Inr s"
  shows "driver_inv s \<and> client s \<noteq> None"
  using assms initial_state_inv [of opened]
  by (auto simp add: jack_init_def initial_state_def split: if_splits)

lemma jack_flush_inv: "driver_inv s \<Longrightarrow> driver_inv (jack_flush s)"
  by (simp add: driver_inv_def jack_flush_def)

lemma bytes_to_transfer_aligned:
  "bytes_per_frame dvd nat ((samples * int bytes_per_frame) mod 2 ^ 64)"
proof -
  have "(4 :: int) dvd (samples * 4) mod 2 ^ 64"
    by (rule dvd_mod) simp_all
  then have "int 4 dvd int (nat ((samples * 4) mod 2 ^ 64))" by simp
  then show ?thesis unfolding int_dvd_int_iff by (simp add: bytes_per_frame_def)
qed

lemma play_state:
  "snd (snd (play buf samples now s))
   = s\<lparr>jackbuf := fst (jack_ringbuffer_write (jackbuf s) buf
                         (nat ((samples * int bytes_per_frame) mod 2 ^ 64))),
       time_of_latest_transfer := now\<rparr>"
  by (simp add: play_def Let_def split_beta)

lemma play_inv:
  assumes "driver_inv s"
  shows "driver_inv (snd (snd (play buf samples now s)))"
  using assms write_wf write_aligned [OF _ bytes_to_transfer_aligned]
  by (simp add: driver_inv_def play_state)

lemma process_state:
  "snd (snd (process n jb s))
   = (if flush_please s \<noteq> 0
      then s\<lparr>jackbuf := jack_ringbuffer_read_advance (jackbuf s)
                            (jack_ringbuffer_read_space (jackbuf s)),
              flush_please := 0\<rparr>
      else s\<lparr>jackbuf := jack_ringbuffer_read_advance (jackbuf s)
               (fst (snd (fold span_step (jack_ringbuffer_get_read_vector (jackbuf s)) (jb, 0, n)))
                  * bytes_per_frame)\<rparr>)"
  by (simp add: process_def Let_def split_beta)

lemma process_inv:
  assumes inv: "driver_inv s" and len: "length jb = NPORTS"
    and room: "\<And>c. c < NPORTS \<Longrightarrow> n \<le> length (jb ! c)"
  shows "driver_inv (snd (snd (process n jb s)))"
proof (cases "flush_please s = 0")
  case True
  define k where "k = min (jack_ringbuffer_read_space (jackbuf s) div bytes_per_frame) n"
  have wf: "rb_wf (jackbuf s)" and al: "rb_aligned (jackbuf s)"
    using inv by (simp_all add: driver_inv_def)
  have le: "k * bytes_per_frame \<le> jack_ringbuffer_read_space (jackbuf s)"
    unfolding k_def by (simp add: bytes_per_frame_def)
  have "snd (snd (process n jb s))
        = s\<lparr>jackbuf := jack_ringbuffer_read_advance (jackbuf s) (k * bytes_per_frame)\<rparr>"
    using process_aligned_eq [OF True len room wf al k_def] by simp
  then show ?thesis
    using read_advance_wf [OF wf le] read_advance_aligned [OF al, of "k * bytes_per_frame"]
    by (simp add: driver_inv_def)
next
  case False
  have wf: "rb_wf (jackbuf s)" and al: "rb_aligned (jackbuf s)"
    using inv by (simp_all add: driver_inv_def)
  show ?thesis
    using False read_advance_wf [OF wf order_refl]
      read_advance_aligned [OF al read_space_aligned [OF al]]
    by (simp add: process_state driver_inv_def)
qed

lemma reachable_inv:
  assumes "reachable s"
  shows "driver_inv s"
  using assms
proof induction
  case (init allocated opened sample_rate activate_result s)
  then show ?case using jack_init_inv by blast
next
  case (played s buf samples time_now)
  then show ?case by (simp add: play_inv)
next
  case (processed s buffer nframes)
  then show ?case by (intro process_inv) simp_all
next
  case (flushed s)
  then show ?case by (simp add: jack_flush_inv)
next
  case (graph s latency)
  then show ?case by (simp add: driver_inv_def)
qed

lemma reachable_capacity:
  assumes "reachable s"
  shows "rb_size (jackbuf s) = buffer_size"
  using assms
proof induction
  case (init allocated opened sample_rate activate_result s)
  then show ?case
    by (auto simp add: jack_init_def initial_state_def jack_ringbuffer_create_def
        split: if_splits)
next
  case (played s buf samples time_now)
  then show ?case by (simp add: play_state jack_ringbuffer_write_def Let_def)
next
  case (processed s buffer nframes)
  then show ?case by (simp add: process_state jack_ringbuffer_read_advance_def)
next
  case (flushed s)
  then show ?case by (simp add: jack_flush_def)
next
  case (graph s latency)
  then show ?case by simp
qed

lemma reachable_occupancy:
  assumes "reachable s"
  shows "jack_ringbuffer_read_space (jackbuf s) \<le> buffer_size"
  using reachable_inv [OF assms] reachable_capacity [OF assms]
  by (simp add: driver_inv_def rb_wf_def jack_ringbuffer_read_space_def)

subsection \<open>Flush\<close>

lemma silent_buffers:
  assumes "\<And>c. c < NPORTS \<Longrightarrow> length (jb ! c) = n"
  shows "map (\<lambda>c. replicate n 0 @ drop n (jb ! c)) [0..<NPORTS]
         = replicate NPORTS (replicate n (0 :: jack_default_audio_sample_t))"
proof -
  have "map (\<lambda>c. replicate n 0 @ drop n (jb ! c)) [0..<NPORTS]
        = map (\<lambda>c. replicate n (0 :: jack_default_audio_sample_t)) [0..<NPORTS]"
    using assms by (intro map_cong refl) simp
  then show ?thesis by (simp add: map_replicate_const)
qed

lemma process_flush_silent:
  assumes "flush_please s \<noteq> 0" "length buffer = NPORTS"
    and "\<forall>c<NPORTS. length (buffer ! c) = nframes"
  shows "process nframes buffer s
         = (0, replicate NPORTS (replicate nframes 0),
            s\<lparr>jackbuf := jack_ringbuffer_read_advance (jackbuf s)
                            (jack_ringbuffer_read_space (jackbuf s)),
              flush_please := 0\<rparr>)"
proof -
  have "map (\<lambda>c. replicate nframes 0 @ drop nframes (buffer ! c)) [0..<NPORTS]
        = replicate NPORTS (replicate nframes (0 :: jack_default_audio_sample_t))"
    using assms(3) by (intro silent_buffers) simp
  moreover have "\<And>c. c < NPORTS \<Longrightarrow> nframes \<le> length (buffer ! c)"
    using assms(3) by simp
  ultimately show ?thesis
    using process_flush_eq [OF assms(1,2), of nframes] by simp
qed

lemma read_advance_all_empty:
  "jack_ringbuffer_read_space
     (jack_ringbuffer_read_advance rb (jack_ringbuffer_read_space rb)) = 0"
  "rb_content (jack_ringbuffer_read_advance rb (jack_ringbuffer_read_space rb)) = []"
  by (simp_all add: jack_ringbuffer_read_advance_def jack_ringbuffer_read_space_def
      rb_content_def)

text \<open>
  Claim C3. When the flush flag is set at entry, \<^const>\<open>process\<close> moves the read cursor
  forward by the whole unread occupancy, which leaves the buffer empty, clears the flag,
  and fills all \<open>nframes\<close> frames of every port with 0: nothing of the queue reaches the
  output, whatever it held.
\<close>

theorem process_flush_discards_queue:
  assumes "flush_please s \<noteq> 0" and "length buffer = NPORTS"
    and "\<forall>c<NPORTS. length (buffer ! c) = nframes"
  shows "fst (process nframes buffer s) = 0
    \<and> fst (snd (process nframes buffer s)) = replicate NPORTS (replicate nframes 0)
    \<and> rb_read_ptr (jackbuf (snd (snd (process nframes buffer s))))
        = rb_read_ptr (jackbuf s) + jack_ringbuffer_read_space (jackbuf s)
    \<and> rb_write_ptr (jackbuf (snd (snd (process nframes buffer s)))) = rb_write_ptr (jackbuf s)
    \<and> jack_ringbuffer_read_space (jackbuf (snd (snd (process nframes buffer s)))) = 0
    \<and> rb_content (jackbuf (snd (snd (process nframes buffer s)))) = []
    \<and> flush_please (snd (snd (process nframes buffer s))) = 0"
  using read_advance_all_empty [of "jackbuf s"]
  by (simp add: process_flush_silent [OF assms] jack_ringbuffer_read_advance_def)

theorem process_flush_discards_queue_witness:
  "fst (snd (process 3 [[7, 7, 7], [8, 8, 8]]
      (jack_flush (snd (snd (play [1, 0, 2, 0, 3, 0, 4, 0] 2 9 (initial_state (Some 0))))))))
     = [[0, 0, 0], [0, 0, 0]]
   \<and> jack_ringbuffer_read_space (jackbuf (snd (snd (process 3 [[7, 7, 7], [8, 8, 8]]
      (jack_flush (snd (snd (play [1, 0, 2, 0, 3, 0, 4, 0] 2 9 (initial_state (Some 0))))))))))
     = 0"
proof -
  let ?s = "jack_flush (snd (snd (play [1, 0, 2, 0, 3, 0, 4, 0] 2 9 (initial_state (Some 0)))))"
  have h1: "flush_please ?s \<noteq> 0" by (simp add: jack_flush_def)
  have h2: "length [[7, 7, 7], [8, 8, 8 :: jack_default_audio_sample_t]] = NPORTS"
    by (simp add: NPORTS_def)
  have h3: "\<forall>c<NPORTS. length ([[7, 7, 7], [8, 8, 8 :: jack_default_audio_sample_t]] ! c) = 3"
    by (simp add: NPORTS_def less_Suc_eq numeral_2_eq_2)
  show ?thesis
    using process_flush_discards_queue [OF h1 h2 h3]
    by (simp add: NPORTS_def numeral_2_eq_2 numeral_3_eq_3)
qed

subsection \<open>The write path\<close>

lemma play_result:
  "fst (play buf samples now s) = 0"
  "fst (snd (play buf samples now s))
   = (let bytes = nat ((samples * int bytes_per_frame) mod 2 ^ 64);
          written = min bytes (jack_ringbuffer_write_space (jackbuf s))
      in if written < bytes then Some (written, bytes) else None)"
  unfolding play_def Let_def split_beta write_returns by simp_all

lemma memcpy_nothing: "memcpy mem dst src 0 = mem"
  by (rule ext) (auto simp add: memcpy_def)

lemma write_nothing:
  assumes "jack_ringbuffer_write_space rb = 0"
  shows "fst (jack_ringbuffer_write rb src cnt) = rb"
  using assms by (simp add: jack_ringbuffer_write_def Let_def memcpy_nothing)


text \<open>
  Claim C2, as amended. \<^const>\<open>play\<close> returns 0 whatever it could write. It appends to the
  queue the first \<open>min s r\<close> of the \<open>s\<close> bytes requested, \<open>r\<close> being the free space; the
  rest is dropped, and the two counts appear in the overrun message only. The function
  is total: the call always comes back.
\<close>

theorem play_writes_what_fits:
  assumes "rb_wf (jackbuf s)"
    and "bytes = nat ((samples * int bytes_per_frame) mod 2 ^ 64)"
    and "written = min bytes (jack_ringbuffer_write_space (jackbuf s))"
    and "written \<le> length buf"
  shows "fst (play buf samples now s) = 0
    \<and> fst (snd (play buf samples now s))
        = (if written < bytes then Some (written, bytes) else None)
    \<and> rb_content (jackbuf (snd (snd (play buf samples now s))))
        = rb_content (jackbuf s) @ take written buf
    \<and> jack_ringbuffer_read_space (jackbuf (snd (snd (play buf samples now s))))
        = jack_ringbuffer_read_space (jackbuf s) + written
    \<and> rb_read_ptr (jackbuf (snd (snd (play buf samples now s)))) = rb_read_ptr (jackbuf s)"
proof -
  let ?rb = "fst (jack_ringbuffer_write (jackbuf s) buf bytes)"
  have st: "jackbuf (snd (snd (play buf samples now s))) = ?rb"
    unfolding play_state assms(2) by simp
  have c: "rb_content ?rb = rb_content (jackbuf s) @ take written buf"
    using write_content [OF assms(1), of bytes buf] assms(4) unfolding assms(3) by simp
  have r: "jack_ringbuffer_read_space ?rb = jack_ringbuffer_read_space (jackbuf s) + written"
    using write_read_space [OF assms(1), of buf bytes] unfolding assms(3) by simp
  have p: "rb_read_ptr ?rb = rb_read_ptr (jackbuf s)"
    by (simp add: jack_ringbuffer_write_def Let_def)
  have l: "fst (snd (play buf samples now s))
        = (if written < bytes then Some (written, bytes) else None)"
    unfolding play_result(2) Let_def assms(3) assms(2) by (rule refl)
  show ?thesis
    unfolding st using play_result(1) l c r p by (intro conjI)
qed

theorem play_writes_what_fits_witness:
  "fst (play [1, 2, 3, 4, 5, 6, 7, 8] 2 9
      ((initial_state (Some 0))
         \<lparr>jackbuf := (jack_ringbuffer_create buffer_size)\<lparr>rb_write_ptr := 705596\<rparr>\<rparr>)) = 0
   \<and> fst (snd (play [1, 2, 3, 4, 5, 6, 7, 8] 2 9
      ((initial_state (Some 0))
         \<lparr>jackbuf := (jack_ringbuffer_create buffer_size)\<lparr>rb_write_ptr := 705596\<rparr>\<rparr>)))
     = Some (4, 8)
   \<and> jack_ringbuffer_read_space (jackbuf (snd (snd (play [1, 2, 3, 4, 5, 6, 7, 8] 2 9
      ((initial_state (Some 0))
         \<lparr>jackbuf := (jack_ringbuffer_create buffer_size)\<lparr>rb_write_ptr := 705596\<rparr>\<rparr>)))))
     = 705600"
proof -
  let ?rb = "(jack_ringbuffer_create buffer_size)\<lparr>rb_write_ptr := 705596\<rparr>"
  let ?s = "(initial_state (Some 0))\<lparr>jackbuf := ?rb\<rparr>"
  have j: "jackbuf ?s = ?rb" by simp
  have h1: "rb_wf (jackbuf ?s)"
    unfolding j
    by (simp add: rb_wf_def jack_ringbuffer_create_def buffer_size_def bytes_per_frame_def)
  have h2: "(8 :: nat) = nat ((2 * int bytes_per_frame) mod 2 ^ 64)"
    by (simp add: bytes_per_frame_def)
  have h3: "(4 :: nat) = min 8 (jack_ringbuffer_write_space (jackbuf ?s))"
    unfolding j
    by (simp add: jack_ringbuffer_write_space_def jack_ringbuffer_read_space_def
        jack_ringbuffer_create_def buffer_size_def bytes_per_frame_def)
  have h4: "(4 :: nat) \<le> length [1, 2, 3, 4, 5, 6, 7, 8 :: byte]" by simp
  have r: "jack_ringbuffer_read_space (jackbuf ?s) = 705596"
    unfolding j by (simp add: jack_ringbuffer_read_space_def jack_ringbuffer_create_def)
  note w = play_writes_what_fits [OF h1 h2 h3 h4, of 9]
  have a: "fst (play [1, 2, 3, 4, 5, 6, 7, 8] 2 9 ?s) = 0" using w by (rule conjunct1)
  have "fst (snd (play [1, 2, 3, 4, 5, 6, 7, 8] 2 9 ?s))
        = (if (4 :: nat) < 8 then Some (4, 8) else None)"
    using w by (elim conjE)
  then have b: "fst (snd (play [1, 2, 3, 4, 5, 6, 7, 8] 2 9 ?s)) = Some (4, 8)" by simp
  have "jack_ringbuffer_read_space (jackbuf (snd (snd
      (play [1, 2, 3, 4, 5, 6, 7, 8] 2 9 ?s)))) = jack_ringbuffer_read_space (jackbuf ?s) + 4"
    using w by (elim conjE)
  then have c: "jack_ringbuffer_read_space (jackbuf (snd (snd
      (play [1, 2, 3, 4, 5, 6, 7, 8] 2 9 ?s)))) = 705600"
    unfolding r by simp
  show ?thesis using a b c by (intro conjI)
qed

text \<open>
  Claim C2 as stated fails: one frame is written into the empty buffer, and the value
  returned is 0, neither the one frame nor its four bytes.
\<close>

theorem play_returns_zero_not_count:
  "fst (play [1, 0, 2, 0] 1 9 (initial_state (Some 0))) = 0
   \<and> jack_ringbuffer_read_space
        (jackbuf (snd (snd (play [1, 0, 2, 0] 1 9 (initial_state (Some 0)))))) = 4
   \<and> fst (snd (play [1, 0, 2, 0] 1 9 (initial_state (Some 0)))) = None"
proof -
  let ?s = "initial_state (Some 0)"
  have ws: "jack_ringbuffer_write_space (jackbuf ?s) = 705600"
    by (simp add: initial_state_def jack_ringbuffer_create_def jack_ringbuffer_write_space_def
        jack_ringbuffer_read_space_def buffer_size_def bytes_per_frame_def)
  have rs: "jack_ringbuffer_read_space (jackbuf ?s) = 0"
    by (simp add: initial_state_def jack_ringbuffer_create_def jack_ringbuffer_read_space_def)
  have wf: "rb_wf (jackbuf ?s)"
    using initial_state_inv [of "Some 0"] by (simp add: driver_inv_def)
  have b: "nat ((1 * int bytes_per_frame) mod 2 ^ 64) = 4" by (simp add: bytes_per_frame_def)
  have "jack_ringbuffer_read_space (jackbuf (snd (snd (play [1, 0, 2, 0] 1 9 ?s)))) = 4"
    unfolding play_state b using write_read_space [OF wf, of "[1, 0, 2, 0]" 4]
    by (simp add: ws rs)
  moreover have "fst (snd (play [1, 0, 2, 0] 1 9 ?s)) = None"
    unfolding play_result(2) b Let_def ws by simp
  ultimately show ?thesis using play_result(1) by (intro conjI)
qed

text \<open>
  Claim C10. Every call of \<^const>\<open>play\<close> stores the clock value it is given as the time
  of the latest transfer. With a full ring buffer the call transfers nothing and leaves
  the buffer as it was, and still the elapsed time seen by the delay estimate restarts
  from 0.
\<close>

theorem play_always_stamps_time:
  "time_of_latest_transfer (snd (snd (play buf samples now s))) = now
   \<and> elapsed now (snd (snd (play buf samples now s))) = 0
   \<and> (jack_ringbuffer_write_space (jackbuf s) = 0 \<longrightarrow>
        jackbuf (snd (snd (play buf samples now s))) = jackbuf s
        \<and> jack_ringbuffer_read_space (jackbuf (snd (snd (play buf samples now s))))
            = jack_ringbuffer_read_space (jackbuf s))"
  by (simp add: play_state elapsed_def write_nothing)

theorem play_always_stamps_time_witness:
  "time_of_latest_transfer (snd (snd (play [1, 0, 2, 0] 1 77
      ((initial_state (Some 0))
         \<lparr>jackbuf := (jack_ringbuffer_create buffer_size)\<lparr>rb_write_ptr := 705600\<rparr>\<rparr>)))) = 77
   \<and> jack_ringbuffer_read_space (jackbuf (snd (snd (play [1, 0, 2, 0] 1 77
      ((initial_state (Some 0))
         \<lparr>jackbuf := (jack_ringbuffer_create buffer_size)\<lparr>rb_write_ptr := 705600\<rparr>\<rparr>)))))
     = 705600"
proof -
  let ?rb = "(jack_ringbuffer_create buffer_size)\<lparr>rb_write_ptr := 705600\<rparr>"
  let ?s = "(initial_state (Some 0))\<lparr>jackbuf := ?rb\<rparr>"
  have j: "jackbuf ?s = ?rb" by simp
  have r: "jack_ringbuffer_read_space (jackbuf ?s) = 705600"
    unfolding j by (simp add: jack_ringbuffer_read_space_def jack_ringbuffer_create_def)
  have h: "jack_ringbuffer_write_space (jackbuf ?s) = 0"
    unfolding jack_ringbuffer_write_space_def r
    by (simp add: jack_ringbuffer_create_def buffer_size_def bytes_per_frame_def)
  note w = play_always_stamps_time [of "[1, 0, 2, 0]" 1 77 ?s]
  have a: "time_of_latest_transfer (snd (snd (play [1, 0, 2, 0] 1 77 ?s))) = 77"
    using w by (rule conjunct1)
  have "jack_ringbuffer_read_space (jackbuf (snd (snd (play [1, 0, 2, 0] 1 77 ?s))))
        = jack_ringbuffer_read_space (jackbuf ?s)"
    using w h by blast
  then show ?thesis using a r by simp
qed

subsection \<open>The delay estimate\<close>

lemma reachable_client:
  assumes "reachable s"
  shows "client s \<noteq> None"
  using assms
proof induction
  case (init allocated opened sample_rate activate_result s)
  then show ?case using jack_init_inv by blast
next
  case (played s buf samples time_now)
  then show ?case by (simp add: play_state)
next
  case (processed s buffer nframes)
  then show ?case by (simp add: process_state)
next
  case (flushed s)
  then show ?case by (simp add: jack_flush_def)
next
  case (graph s latency)
  then show ?case by simp
qed

text \<open>
  Claim C8, as amended. \<^verbatim>\<open>jack_delay\<close> has no failure result. In every state of the
  driver it returns 0 with a frame count, and every state the driver reaches has an open
  client session, because \<^const>\<open>jack_init\<close> ends the program when the session cannot be
  established. Called before \<^verbatim>\<open>jack_init\<close>, with no session, it does not return a
  failure either: it dereferences the null ring buffer pointer.
\<close>

theorem jack_delay_has_no_failure_result:
  "jack_delay_call now None = Inl Null_Pointer_Dereference
   \<and> jack_delay_call now (Some s) = Inr (0, snd (jack_delay now s))
   \<and> (reachable s \<longrightarrow> client s \<noteq> None)"
proof -
  have "jack_delay now s = (0, snd (jack_delay now s))"
    by (simp add: jack_delay_def Let_def)
  then have "jack_delay_call now (Some s) = Inr (0, snd (jack_delay now s))"
    by (simp add: jack_delay_call_def)
  moreover have "jack_delay_call now None = Inl Null_Pointer_Dereference"
    by (simp add: jack_delay_call_def)
  ultimately show ?thesis using reachable_client [of s] by blast
qed

theorem jack_delay_has_no_failure_result_witness:
  "client (initial_state (Some 0)) \<noteq> None
   \<and> jack_delay_call 5 (Some (initial_state (Some 0))) = Inr (0, 0)"
proof -
  have "jack_init True (Some 0) 44100 0 = Inr (initial_state (Some 0))"
    by (simp add: jack_init_def)
  then have r: "reachable (initial_state (Some 0))" by (rule reachable.init)
  have v: "snd (jack_delay 5 (initial_state (Some 0))) = 0"
    by (simp add: jack_delay_def Let_def initial_state_def jack_ringbuffer_create_def
        jack_ringbuffer_read_space_def)
  show ?thesis
    using jack_delay_has_no_failure_result [of 5 "initial_state (Some 0)"] r v by simp
qed

text \<open>
  Claim C8 as stated fails: called before \<^verbatim>\<open>jack_init\<close>, when no session has been
  established, \<^verbatim>\<open>jack_delay\<close> does not return a non-success result; it does not
  return.
\<close>

theorem jack_delay_before_init_crashes:
  "jack_delay_call 5 None = Inl Null_Pointer_Dereference"
  by (simp add: jack_delay_call_def)

text \<open>
  Claim C5. The value stored by \<^const>\<open>jack_delay\<close>, read as a signed 64 bit number, is
  the latency estimate plus the unread bytes divided by the frame size minus the frames
  since the latest transfer, where the elapsed time \<open>now - time_of_latest_transfer\<close> is
  multiplied by 44100 and shifted right arithmetically by 32 bits; products and sums are
  those of 64 bit two's complement arithmetic. Where nothing overflows this is the
  equation over the integers, with \<^const>\<open>frames_since_transfer\<close> the integer part of
  the product.
\<close>

theorem jack_delay_formula:
  "fst (jack_delay now s) = 0
   \<and> snd (jack_delay now s)
       = ucast (jack_latency s)
         + of_nat (jack_ringbuffer_read_space (jackbuf s) div bytes_per_frame)
         - signed_drop_bit 32 ((now - time_of_latest_transfer s) * 44100)
   \<and> sint (snd (jack_delay now s))
       = signed_take_bit 63 (uint (jack_latency s)
           + int (jack_ringbuffer_read_space (jackbuf s) div bytes_per_frame)
           - signed_take_bit 63 (elapsed now s * 44100) div 2 ^ 32)
   \<and> (- (2 ^ 63) \<le> elapsed now s * 44100 \<and> elapsed now s * 44100 < 2 ^ 63
        \<and> jack_ringbuffer_read_space (jackbuf s) div bytes_per_frame < 2 ^ 62 \<longrightarrow>
       sint (snd (jack_delay now s))
       = uint (jack_latency s)
         + int (jack_ringbuffer_read_space (jackbuf s) div bytes_per_frame)
         - frames_since_transfer (elapsed now s))"
proof -
  have "fst (jack_delay now s) = 0" by (simp add: jack_delay_def Let_def)
  moreover note jack_delay_value [of now s] jack_delay_sint [of now s]
  moreover have "- (2 ^ 63) \<le> elapsed now s * 44100 \<and> elapsed now s * 44100 < 2 ^ 63
        \<and> jack_ringbuffer_read_space (jackbuf s) div bytes_per_frame < 2 ^ 62 \<longrightarrow>
       sint (snd (jack_delay now s))
       = uint (jack_latency s)
         + int (jack_ringbuffer_read_space (jackbuf s) div bytes_per_frame)
         - frames_since_transfer (elapsed now s)"
    using jack_delay_exact [of now s] by (intro impI) (elim conjE)
  ultimately show ?thesis by (intro conjI)
qed

theorem jack_delay_formula_witness:
  "sint (snd (jack_delay 4294967305
      ((initial_state (Some 0))
         \<lparr>jackbuf := (jack_ringbuffer_create buffer_size)\<lparr>rb_write_ptr := 8\<rparr>,
          jack_latency := 100, time_of_latest_transfer := 9\<rparr>))) = - 43998"
proof -
  let ?rb = "(jack_ringbuffer_create buffer_size)\<lparr>rb_write_ptr := 8\<rparr>"
  let ?s = "(initial_state (Some 0))
         \<lparr>jackbuf := ?rb, jack_latency := 100, time_of_latest_transfer := 9\<rparr>"
  have e: "elapsed 4294967305 ?s = 4294967296"
    by (simp add: elapsed_def)
  have r: "jack_ringbuffer_read_space (jackbuf ?s) div bytes_per_frame = 2"
    by (simp add: jack_ringbuffer_read_space_def jack_ringbuffer_create_def bytes_per_frame_def)
  have l: "uint (jack_latency ?s) = 100" by simp
  have f: "frames_since_transfer 4294967296 = 44100"
    by (simp add: frames_since_transfer_def)
  have h: "- (2 ^ 63) \<le> elapsed 4294967305 ?s * 44100 \<and> elapsed 4294967305 ?s * 44100 < 2 ^ 63
        \<and> jack_ringbuffer_read_space (jackbuf ?s) div bytes_per_frame < 2 ^ 62"
    unfolding e r by simp
  have "sint (snd (jack_delay 4294967305 ?s))
       = uint (jack_latency ?s)
         + int (jack_ringbuffer_read_space (jackbuf ?s) div bytes_per_frame)
         - frames_since_transfer (elapsed 4294967305 ?s)"
    using jack_delay_formula [of 4294967305 ?s] h by blast
  then show ?thesis unfolding e r l f by simp
qed

text \<open>
  Claim C6. The occupancy and the latency estimate are unsigned, so never negative. When
  the elapsed time, in seconds, is less than the duration of the queued frames at 44100
  frames per second, the delay is not negative. The elapsed time is the signed 64 bit
  difference of the two clock values; its product with 44100 must not fall below the
  least 64 bit number, which every elapsed time from 0 on fulfils, and the occupancy is
  that of a buffer below \<open>2 ^ 33\<close> bytes, as the 705600 bytes of the driver are.
\<close>

theorem jack_delay_nonnegative:
  assumes lo: "- (2 ^ 63) \<le> elapsed now s * 44100"
    and soon: "real_of_int (elapsed now s) / 2 ^ 32
               < real (jack_ringbuffer_read_space (jackbuf s) div bytes_per_frame) / 44100"
    and occ: "jack_ringbuffer_read_space (jackbuf s) < 2 ^ 33"
  shows "0 \<le> sint (snd (jack_delay now s))"
proof -
  define n where "n = int (jack_ringbuffer_read_space (jackbuf s) div bytes_per_frame)"
  define p where "p = elapsed now s * 44100"
  have n: "0 \<le> n" "n < 2 ^ 31"
    using occ by (simp_all add: n_def bytes_per_frame_def)
  have "real_of_int (elapsed now s) * 44100 < real_of_int n * 2 ^ 32"
    using soon by (simp add: n_def field_simps)
  then have "real_of_int p < real_of_int (n * 2 ^ 32)" by (simp add: p_def)
  then have pn: "p < n * 2 ^ 32" by (simp only: of_int_less_iff)
  then have hi: "p < 2 ^ 63" using n by simp
  have "p = 4294967296 * (p div 4294967296) + p mod 4294967296" by simp
  moreover have "0 \<le> p mod 4294967296" by simp
  ultimately have f: "p div 4294967296 < n" using pn by simp
  have "jack_ringbuffer_read_space (jackbuf s) div bytes_per_frame < 2 ^ 62"
    using n(2) by (simp add: n_def)
  then have "sint (snd (jack_delay now s))
      = uint (jack_latency s) + n - frames_since_transfer (elapsed now s)"
    using jack_delay_exact [of now s] lo hi by (simp add: p_def n_def)
  moreover have "frames_since_transfer (elapsed now s) < n"
    using f by (simp add: frames_since_transfer_def p_def)
  moreover have "0 \<le> uint (jack_latency s)" by simp
  ultimately show ?thesis by linarith
qed

theorem jack_delay_nonnegative_witness:
  "0 \<le> sint (snd (jack_delay 100009
      ((initial_state (Some 0))
         \<lparr>jackbuf := (jack_ringbuffer_create buffer_size)\<lparr>rb_write_ptr := 8\<rparr>,
          time_of_latest_transfer := 9\<rparr>)))"
proof -
  let ?rb = "(jack_ringbuffer_create buffer_size)\<lparr>rb_write_ptr := 8\<rparr>"
  let ?s = "(initial_state (Some 0))\<lparr>jackbuf := ?rb, time_of_latest_transfer := 9\<rparr>"
  have e: "elapsed 100009 ?s = 100000"
    by (simp add: elapsed_def)
  have r: "jack_ringbuffer_read_space (jackbuf ?s) = 8"
    by (simp add: jack_ringbuffer_read_space_def jack_ringbuffer_create_def)
  have h1: "- (2 ^ 63) \<le> elapsed 100009 ?s * 44100" unfolding e by simp
  have h2: "real_of_int (elapsed 100009 ?s) / 2 ^ 32
               < real (jack_ringbuffer_read_space (jackbuf ?s) div bytes_per_frame) / 44100"
    unfolding e r by (simp add: bytes_per_frame_def)
  have h3: "jack_ringbuffer_read_space (jackbuf ?s) < 2 ^ 33" unfolding r by simp
  show ?thesis by (rule jack_delay_nonnegative [OF h1 h2 h3])
qed

subsection \<open>Audio, then silence\<close>

lemma played_two_frames:
  "rb_content (jackbuf (snd (snd (play [1, 0, 2, 0, 3, 0, 4, 0] 2 9 (initial_state (Some 0))))))
   = [1, 0, 2, 0, 3, 0, 4, 0]"
  "jack_ringbuffer_read_space
     (jackbuf (snd (snd (play [1, 0, 2, 0, 3, 0, 4, 0] 2 9 (initial_state (Some 0)))))) = 8"
proof -
  let ?s = "initial_state (Some 0)"
  have ws: "jack_ringbuffer_write_space (jackbuf ?s) = 705600"
    by (simp add: initial_state_def jack_ringbuffer_create_def jack_ringbuffer_write_space_def
        jack_ringbuffer_read_space_def buffer_size_def bytes_per_frame_def)
  have rs: "jack_ringbuffer_read_space (jackbuf ?s) = 0"
    by (simp add: initial_state_def jack_ringbuffer_create_def jack_ringbuffer_read_space_def)
  have wf: "rb_wf (jackbuf ?s)"
    using initial_state_inv [of "Some 0"] by (simp add: driver_inv_def)
  have c0: "rb_content (jackbuf ?s) = []"
    by (simp add: rb_content_def rs)
  have b: "nat ((2 * int bytes_per_frame) mod 2 ^ 64) = 8" by (simp add: bytes_per_frame_def)
  show "rb_content (jackbuf (snd (snd (play [1, 0, 2, 0, 3, 0, 4, 0] 2 9 ?s))))
        = [1, 0, 2, 0, 3, 0, 4, 0]"
    unfolding play_state b using write_content [OF wf, of 8 "[1, 0, 2, 0, 3, 0, 4, 0]"]
    by (simp add: ws c0)
  show "jack_ringbuffer_read_space
     (jackbuf (snd (snd (play [1, 0, 2, 0, 3, 0, 4, 0] 2 9 ?s)))) = 8"
    unfolding play_state b using write_read_space [OF wf, of "[1, 0, 2, 0, 3, 0, 4, 0]" 8]
    by (simp add: ws rs)
qed

lemma two_frames_left:
  "channel_samples 0 [1, 0, 2, 0, 3, 0, 4, 0] = [32769 / 1073741824, 98307 / 1073741824]"
  by (simp add: channel_samples_def short_at_def NPORTS_def bytes_per_frame_def upt_rec
      sample_conv_one sample_conv_three)

lemma two_frames_right:
  "channel_samples (Suc 0) [1, 0, 2, 0, 3, 0, 4, 0] = [32769 / 536870912, 32769 / 268435456]"
  by (simp add: channel_samples_def short_at_def NPORTS_def bytes_per_frame_def upt_rec
      sample_conv_two sample_conv_four)

lemma two_ports: "[0..<NPORTS] = [0, Suc 0]"
  by (simp add: NPORTS_def upt_rec)

lemma three_frame_buffers:
  "length [[7, 7, 7], [8, 8, 8 :: jack_default_audio_sample_t]] = NPORTS"
  "\<forall>c<NPORTS. length ([[7, 7, 7], [8, 8, 8 :: jack_default_audio_sample_t]] ! c) = 3"
  by (simp_all add: NPORTS_def less_Suc_eq numeral_2_eq_2)

lemma process_audio_then_silence:
  assumes fl: "flush_please s = 0" and inv: "driver_inv s"
    and len: "length buffer = NPORTS"
    and bufs: "\<forall>c<NPORTS. length (buffer ! c) = nframes"
    and k: "k = min (jack_ringbuffer_read_space (jackbuf s) div bytes_per_frame) nframes"
  shows "process nframes buffer s
         = (0,
            map (\<lambda>c. take k (channel_samples c (rb_content (jackbuf s)))
                      @ replicate (nframes - k) 0) [0..<NPORTS],
            s\<lparr>jackbuf := jack_ringbuffer_read_advance (jackbuf s) (k * bytes_per_frame)\<rparr>)"
    and "rb_content (jack_ringbuffer_read_advance (jackbuf s) (k * bytes_per_frame))
         = drop (k * bytes_per_frame) (rb_content (jackbuf s))"
proof -
  have wf: "rb_wf (jackbuf s)" and al: "rb_aligned (jackbuf s)"
    using inv by (simp_all add: driver_inv_def)
  have room: "\<And>c. c < NPORTS \<Longrightarrow> nframes \<le> length (buffer ! c)"
    using bufs by simp
  have "map (\<lambda>c. take k (channel_samples c (rb_content (jackbuf s)))
                    @ replicate (nframes - k) 0 @ drop nframes (buffer ! c)) [0..<NPORTS]
        = map (\<lambda>c. take k (channel_samples c (rb_content (jackbuf s)))
                    @ replicate (nframes - k) 0) [0..<NPORTS]"
    using bufs by (intro map_cong refl) simp
  then show "process nframes buffer s
        = (0,
           map (\<lambda>c. take k (channel_samples c (rb_content (jackbuf s)))
                     @ replicate (nframes - k) 0) [0..<NPORTS],
           s\<lparr>jackbuf := jack_ringbuffer_read_advance (jackbuf s) (k * bytes_per_frame)\<rparr>)"
    using process_aligned_eq [OF fl len room wf al k] by simp
  have "k * bytes_per_frame \<le> jack_ringbuffer_read_space (jackbuf s)"
    unfolding k by (simp add: bytes_per_frame_def)
  then show "rb_content (jack_ringbuffer_read_advance (jackbuf s) (k * bytes_per_frame))
        = drop (k * bytes_per_frame) (rb_content (jackbuf s))"
    by (rule read_advance_content)
qed

text \<open>
  Claim C1. With the flush flag clear, \<^const>\<open>process\<close> fills every one of the \<open>nframes\<close>
  places of both output buffers: the first \<open>k\<close> hold the converted samples of the oldest
  \<open>k\<close> queued frames, in queue order, \<open>k\<close> being the smaller of the whole frames queued
  and \<open>nframes\<close>; the other \<open>nframes - k\<close> hold 0. What was read leaves the queue. This
  holds in every state that satisfies the invariant of the driver, hence in every
  state the driver reaches (\<open>reachable_inv\<close>). For spans of any length
  \<open>process_spans_eq\<close> gives the output span by span.
\<close>

theorem process_outputs_audio_then_silence:
  assumes fl: "flush_please s = 0" and inv: "driver_inv s"
    and len: "length buffer = NPORTS"
    and bufs: "\<forall>c<NPORTS. length (buffer ! c) = nframes"
    and k: "k = min (jack_ringbuffer_read_space (jackbuf s) div bytes_per_frame) nframes"
  shows "fst (process nframes buffer s) = 0
    \<and> fst (snd (process nframes buffer s))
        = map (\<lambda>c. take k (channel_samples c (rb_content (jackbuf s)))
                    @ replicate (nframes - k) 0) [0..<NPORTS]
    \<and> (\<forall>c<NPORTS. length (fst (snd (process nframes buffer s)) ! c) = nframes)
    \<and> rb_content (jackbuf (snd (snd (process nframes buffer s))))
        = drop (k * bytes_per_frame) (rb_content (jackbuf s))
    \<and> flush_please (snd (snd (process nframes buffer s))) = 0"
proof -
  note p = process_audio_then_silence [OF fl inv len bufs k]
  have "k \<le> length (rb_content (jackbuf s)) div bytes_per_frame" and "k \<le> nframes"
    unfolding k by (simp_all add: rb_content_def)
  then have "\<forall>c<NPORTS. length (map (\<lambda>c. take k (channel_samples c (rb_content (jackbuf s)))
                    @ replicate (nframes - k) 0) [0..<NPORTS] ! c) = nframes"
    by simp
  then show ?thesis unfolding p(1) using p(2) fl by simp
qed

theorem process_outputs_audio_then_silence_witness:
  "fst (snd (process 3 [[7, 7, 7], [8, 8, 8]]
      (snd (snd (play [1, 0, 2, 0, 3, 0, 4, 0] 2 9 (initial_state (Some 0)))))))
   = [[32769 / 1073741824, 98307 / 1073741824, 0],
      [32769 / 536870912, 32769 / 268435456, 0]]"
proof -
  let ?s = "snd (snd (play [1, 0, 2, 0, 3, 0, 4, 0] 2 9 (initial_state (Some 0))))"
  have h1: "flush_please ?s = 0" by (simp add: play_state initial_state_def)
  have h2: "driver_inv ?s" by (intro play_inv initial_state_inv)
  have h5: "(2 :: nat) = min (jack_ringbuffer_read_space (jackbuf ?s) div bytes_per_frame) 3"
    unfolding played_two_frames by (simp add: bytes_per_frame_def)
  note w = process_outputs_audio_then_silence [OF h1 h2 three_frame_buffers h5]
  have "fst (snd (process 3 [[7, 7, 7], [8, 8, 8]] ?s))
        = map (\<lambda>c. take 2 (channel_samples c (rb_content (jackbuf ?s))) @ replicate (3 - 2) 0)
            [0..<NPORTS]"
    using w by (elim conjE)
  then show ?thesis
    unfolding played_two_frames two_ports by (simp add: two_frames_left two_frames_right)
qed

subsection \<open>Flush, then play\<close>

lemma flag_survives_play:
  "flush_please (snd (snd (play buf samples now (jack_flush s)))) = 1"
  by (simp add: play_state jack_flush_def)

text \<open>
  Claim C4, as amended. When \<^const>\<open>jack_flush\<close> is followed by a \<^const>\<open>play\<close> and only
  then by \<^const>\<open>process\<close>, the flag is still set when the callback runs: the callback
  discards everything unread, the frames played after the request included, and its
  output is silence.
\<close>

theorem flush_discards_later_play:
  assumes "length buffer = NPORTS" and "\<forall>c<NPORTS. length (buffer ! c) = nframes"
  shows "fst (snd (process nframes buffer (snd (snd (play buf samples now (jack_flush s))))))
         = replicate NPORTS (replicate nframes 0)
    \<and> rb_content (jackbuf (snd (snd
          (process nframes buffer (snd (snd (play buf samples now (jack_flush s)))))))) = []
    \<and> flush_please (snd (snd
          (process nframes buffer (snd (snd (play buf samples now (jack_flush s))))))) = 0"
proof -
  let ?s = "snd (snd (play buf samples now (jack_flush s)))"
  have fl: "flush_please ?s \<noteq> 0" by (simp add: flag_survives_play)
  show ?thesis
    unfolding process_flush_silent [OF fl assms]
    using read_advance_all_empty(2) [of "jackbuf ?s"] by simp
qed

theorem flush_discards_later_play_witness:
  "fst (snd (process 3 [[7, 7, 7], [8, 8, 8]]
      (snd (snd (play [1, 0, 2, 0, 3, 0, 4, 0] 2 9 (jack_flush (initial_state (Some 0))))))))
   = [[0, 0, 0], [0, 0, 0]]"
proof -
  have "fst (snd (process 3 [[7, 7, 7], [8, 8, 8]]
      (snd (snd (play [1, 0, 2, 0, 3, 0, 4, 0] 2 9 (jack_flush (initial_state (Some 0))))))))
        = replicate NPORTS (replicate 3 0)"
    using flush_discards_later_play [OF three_frame_buffers,
        of "[1, 0, 2, 0, 3, 0, 4, 0]" 2 9 "initial_state (Some 0)"]
    by (elim conjE)
  then show ?thesis by (simp add: NPORTS_def numeral_2_eq_2 numeral_3_eq_3)
qed

lemma first_played_sample:
  "channel_samples 0 (replicate 800 1) ! 0 = sample_conv 257" "0 < sample_conv 257"
proof -
  have "short_at (replicate 800 1) 0 = 257" by (simp add: short_at_def)
  then show "channel_samples 0 (replicate 800 1) ! 0 = sample_conv 257"
    by (simp add: channel_samples_def bytes_per_frame_def)
  have "0 < sint (257 :: 16 word)" by simp
  from sample_conv_above_power_of_two_quotient [OF this]
  show "0 < sample_conv 257" by simp
qed

text \<open>
  Claim C4 as stated fails: after a flush request and a play of 200 frames into the
  empty buffer, the next callback of 200 frames outputs silence, not the 200 frames.
\<close>

theorem flush_after_play_outputs_silence:
  "fst (snd (process 200 [replicate 200 7, replicate 200 8]
      (snd (snd (play (replicate 800 1) 200 9 (jack_flush (initial_state (Some 0))))))))
   = [replicate 200 0, replicate 200 0]
   \<and> fst (snd (process 200 [replicate 200 7, replicate 200 8]
      (snd (snd (play (replicate 800 1) 200 9 (jack_flush (initial_state (Some 0)))))))) ! 0
     \<noteq> channel_samples 0 (replicate 800 1)"
proof -
  let ?s = "snd (snd (play (replicate 800 1) 200 9 (jack_flush (initial_state (Some 0)))))"
  let ?jb = "[replicate 200 7, replicate 200 (8 :: jack_default_audio_sample_t)]"
  have fl: "flush_please ?s \<noteq> 0" by (simp add: flag_survives_play)
  have l: "length ?jb = NPORTS" "\<forall>c<NPORTS. length (?jb ! c) = 200"
    by (simp_all add: NPORTS_def less_Suc_eq numeral_2_eq_2)
  have out: "fst (snd (process 200 ?jb ?s)) = [replicate 200 0, replicate 200 0]"
    unfolding process_flush_silent [OF fl l] by (simp add: NPORTS_def numeral_2_eq_2)
  have z: "replicate 200 (0 :: jack_default_audio_sample_t) ! 0 = 0" by simp
  have "channel_samples 0 (replicate 800 1) ! 0 \<noteq> 0"
    using first_played_sample by linarith
  then have "replicate 200 (0 :: jack_default_audio_sample_t) \<noteq> channel_samples 0 (replicate 800 1)"
    using z by metis
  then show ?thesis unfolding out by simp
qed

subsection \<open>Wrap-around\<close>

lemma straddling_write_wraps_read:
  fixes C rd wr m :: nat
  assumes C: "0 < C" and le: "rd \<le> wr" and straddle: "C < wr mod C + m"
  shows "C - rd mod C < wr + m - rd"
proof -
  have "rd div C \<le> wr div C" using le by (rule div_le_mono)
  then have q: "rd div C * C \<le> wr div C * C" by (rule mult_le_mono1)
  have rd: "rd = rd div C * C + rd mod C" and wr: "wr = wr div C * C + wr mod C" by simp_all
  have "rd mod C < C" using C by simp
  then show ?thesis using q rd wr straddle by linarith
qed

lemma second_span_nonempty:
  assumes wf: "rb_wf rb"
    and wrap: "rb_size rb - rb_read_ptr rb mod rb_size rb < jack_ringbuffer_read_space rb"
  shows "jack_ringbuffer_get_read_vector rb ! 1 \<noteq> []"
    and "length (jack_ringbuffer_get_read_vector rb ! 0)
         = rb_size rb - rb_read_ptr rb mod rb_size rb"
  using wrap by (simp_all add: read_vector_spans)

text \<open>
  Claim C9. Let a \<^const>\<open>play\<close> fit into the free space and cross the physical end of
  the storage. Then the read vector has two spans, the first up to the physical end, and
  together they are the bytes queued before followed by the bytes written, none missing
  and none twice. \<^const>\<open>process\<close> converts the frames of that byte sequence in order
  into the output buffers and removes from the queue what it converted.
\<close>

theorem wrapped_write_is_read_back:
  assumes inv: "driver_inv s" and fl: "flush_please s = 0"
    and bytes: "bytes = nat ((samples * int bytes_per_frame) mod 2 ^ 64)"
    and fits: "bytes \<le> jack_ringbuffer_write_space (jackbuf s)"
    and buf: "length buf = bytes"
    and straddle: "rb_size (jackbuf s) < rb_write_ptr (jackbuf s) mod rb_size (jackbuf s) + bytes"
    and len: "length buffer = NPORTS"
    and bufs: "\<forall>c<NPORTS. length (buffer ! c) = nframes"
    and k: "k = min ((jack_ringbuffer_read_space (jackbuf s) + bytes) div bytes_per_frame) nframes"
  shows "concat (jack_ringbuffer_get_read_vector (jackbuf (snd (snd (play buf samples now s)))))
         = rb_content (jackbuf s) @ buf
    \<and> length (jack_ringbuffer_get_read_vector (jackbuf (snd (snd (play buf samples now s)))) ! 0)
        = rb_size (jackbuf s) - rb_read_ptr (jackbuf s) mod rb_size (jackbuf s)
    \<and> jack_ringbuffer_get_read_vector (jackbuf (snd (snd (play buf samples now s)))) ! 1 \<noteq> []
    \<and> fst (snd (process nframes buffer (snd (snd (play buf samples now s)))))
        = map (\<lambda>c. take k (channel_samples c (rb_content (jackbuf s) @ buf))
                    @ replicate (nframes - k) 0) [0..<NPORTS]
    \<and> rb_content (jackbuf (snd (snd (process nframes buffer (snd (snd (play buf samples now s)))))))
        = drop (k * bytes_per_frame) (rb_content (jackbuf s) @ buf)"
proof -
  let ?rb = "jackbuf s"
  let ?s' = "snd (snd (play buf samples now s))"
  let ?rb' = "fst (jack_ringbuffer_write ?rb buf bytes)"
  have wf: "rb_wf ?rb" using inv by (simp add: driver_inv_def)
  have st: "jackbuf ?s' = ?rb'" unfolding play_state bytes by simp
  have m: "min bytes (jack_ringbuffer_write_space ?rb) = bytes" using fits by simp
  have inv': "driver_inv ?s'" using inv by (rule play_inv)
  then have wf': "rb_wf ?rb'" unfolding driver_inv_def st by simp
  have fl': "flush_please ?s' = 0" using fl by (simp add: play_state)
  have c: "rb_content ?rb' = rb_content ?rb @ buf"
    using write_content [OF wf, of bytes buf] buf unfolding m by simp
  have r: "jack_ringbuffer_read_space ?rb' = jack_ringbuffer_read_space ?rb + bytes"
    using write_read_space [OF wf, of buf bytes] unfolding m .
  have fields: "rb_size ?rb' = rb_size ?rb" "rb_read_ptr ?rb' = rb_read_ptr ?rb"
    by (simp_all add: jack_ringbuffer_write_def Let_def)
  have "rb_size ?rb - rb_read_ptr ?rb mod rb_size ?rb
        < rb_write_ptr ?rb + bytes - rb_read_ptr ?rb"
    using wf straddle by (intro straddling_write_wraps_read) (simp_all add: rb_wf_def)
  also have "\<dots> = jack_ringbuffer_read_space ?rb + bytes"
    using wf by (simp add: jack_ringbuffer_read_space_def rb_wf_def)
  finally have wrap: "rb_size ?rb' - rb_read_ptr ?rb' mod rb_size ?rb'
        < jack_ringbuffer_read_space ?rb'"
    unfolding fields r .
  have k': "k = min (jack_ringbuffer_read_space (jackbuf ?s') div bytes_per_frame) nframes"
    unfolding st r by (rule k)
  note p = process_audio_then_silence [OF fl' inv' len bufs k']
  have a: "concat (jack_ringbuffer_get_read_vector ?rb') = rb_content ?rb @ buf"
    using read_vector_concat [OF wf'] c by simp
  have b: "length (jack_ringbuffer_get_read_vector ?rb' ! 0)
        = rb_size ?rb - rb_read_ptr ?rb mod rb_size ?rb"
    using second_span_nonempty(2) [OF wf' wrap] unfolding fields .
  have d: "jack_ringbuffer_get_read_vector ?rb' ! 1 \<noteq> []"
    using wf' wrap by (rule second_span_nonempty(1))
  have e: "fst (snd (process nframes buffer ?s'))
        = map (\<lambda>c. take k (channel_samples c (rb_content ?rb @ buf))
                    @ replicate (nframes - k) 0) [0..<NPORTS]"
    unfolding p(1) st c by simp
  have f: "rb_content (jackbuf (snd (snd (process nframes buffer ?s'))))
        = drop (k * bytes_per_frame) (rb_content ?rb @ buf)"
    unfolding p(1) using p(2) unfolding st c by simp
  show ?thesis unfolding st using a b d e f unfolding st by (intro conjI)
qed

theorem wrapped_write_is_read_back_witness:
  "fst (snd (process 3 [[7, 7, 7], [8, 8, 8]]
      (snd (snd (play [1, 0, 2, 0, 3, 0, 4, 0] 2 9
        ((initial_state (Some 0))
           \<lparr>jackbuf := (jack_ringbuffer_create buffer_size)
              \<lparr>rb_write_ptr := 705596, rb_read_ptr := 705596\<rparr>\<rparr>))))))
   = [[32769 / 1073741824, 98307 / 1073741824, 0],
      [32769 / 536870912, 32769 / 268435456, 0]]
   \<and> length (jack_ringbuffer_get_read_vector (jackbuf
      (snd (snd (play [1, 0, 2, 0, 3, 0, 4, 0] 2 9
        ((initial_state (Some 0))
           \<lparr>jackbuf := (jack_ringbuffer_create buffer_size)
              \<lparr>rb_write_ptr := 705596, rb_read_ptr := 705596\<rparr>\<rparr>))))) ! 0) = 4
   \<and> concat (jack_ringbuffer_get_read_vector (jackbuf
      (snd (snd (play [1, 0, 2, 0, 3, 0, 4, 0] 2 9
        ((initial_state (Some 0))
           \<lparr>jackbuf := (jack_ringbuffer_create buffer_size)
              \<lparr>rb_write_ptr := 705596, rb_read_ptr := 705596\<rparr>\<rparr>))))))
     = [1, 0, 2, 0, 3, 0, 4, 0]"
proof -
  let ?rb = "(jack_ringbuffer_create buffer_size)
              \<lparr>rb_write_ptr := 705596, rb_read_ptr := 705596\<rparr>"
  let ?s = "(initial_state (Some 0))\<lparr>jackbuf := ?rb\<rparr>"
  let ?buf = "[1, 0, 2, 0, 3, 0, 4, 0 :: byte]"
  have j: "jackbuf ?s = ?rb" by simp
  have sz: "rb_size ?rb = 705600" "rb_write_ptr ?rb = 705596" "rb_read_ptr ?rb = 705596"
    by (simp_all add: jack_ringbuffer_create_def buffer_size_def bytes_per_frame_def)
  have rs: "jack_ringbuffer_read_space ?rb = 0"
    by (simp add: jack_ringbuffer_read_space_def)
  have c0: "rb_content ?rb = []" by (simp add: rb_content_def rs)
  have h1: "driver_inv ?s"
    unfolding driver_inv_def j rb_wf_def rb_aligned_def sz
    by (simp add: bytes_per_frame_def)
  have h2: "flush_please ?s = 0" by (simp add: initial_state_def)
  have h3: "(8 :: nat) = nat ((2 * int bytes_per_frame) mod 2 ^ 64)"
    by (simp add: bytes_per_frame_def)
  have h4: "8 \<le> jack_ringbuffer_write_space (jackbuf ?s)"
    unfolding j jack_ringbuffer_write_space_def rs sz by simp
  have h5: "length ?buf = 8" by simp
  have h6: "rb_size (jackbuf ?s) < rb_write_ptr (jackbuf ?s) mod rb_size (jackbuf ?s) + 8"
    unfolding j sz by simp
  have h9: "(2 :: nat) = min ((jack_ringbuffer_read_space (jackbuf ?s) + 8) div bytes_per_frame) 3"
    unfolding j rs by (simp add: bytes_per_frame_def)
  note w = wrapped_write_is_read_back [OF h1 h2 h3 h4 h5 h6 three_frame_buffers h9, of 9]
  have "fst (snd (process 3 [[7, 7, 7], [8, 8, 8]] (snd (snd (play ?buf 2 9 ?s)))))
        = map (\<lambda>c. take 2 (channel_samples c (rb_content (jackbuf ?s) @ ?buf))
                    @ replicate (3 - 2) 0) [0..<NPORTS]"
    using w by (elim conjE)
  then have a: "fst (snd (process 3 [[7, 7, 7], [8, 8, 8]] (snd (snd (play ?buf 2 9 ?s)))))
        = [[32769 / 1073741824, 98307 / 1073741824, 0],
      [32769 / 536870912, 32769 / 268435456, 0]]"
    unfolding j c0 two_ports by (simp add: two_frames_left two_frames_right)
  have "length (jack_ringbuffer_get_read_vector (jackbuf (snd (snd (play ?buf 2 9 ?s)))) ! 0)
        = rb_size (jackbuf ?s) - rb_read_ptr (jackbuf ?s) mod rb_size (jackbuf ?s)"
    using w by (elim conjE)
  then have b: "length (jack_ringbuffer_get_read_vector
        (jackbuf (snd (snd (play ?buf 2 9 ?s)))) ! 0) = 4"
    unfolding j sz by simp
  have "concat (jack_ringbuffer_get_read_vector (jackbuf (snd (snd (play ?buf 2 9 ?s)))))
        = rb_content (jackbuf ?s) @ ?buf"
    using w by (elim conjE)
  then have c: "concat (jack_ringbuffer_get_read_vector
        (jackbuf (snd (snd (play ?buf 2 9 ?s))))) = ?buf"
    unfolding j c0 by simp
  show ?thesis using a b c by (intro conjI)
qed

end
